theory Spec2Isabelle
  imports Main "HOL-Library.Word"
begin

section \<open>The Sudoku validator of \<^verbatim>\<open>sudoku.c\<close>\<close>

subsection \<open>Data\<close>

text \<open>
  \<^verbatim>\<open>int board[9][9]\<close>: a cell is a 32-bit C \<^verbatim>\<open>int\<close>, read as a signed value with
  \<open>sint\<close>. The board is indexed by row and column; every loop of the validator keeps both
  indices below 9, so no other cell is ever read.
\<close>

type_synonym board = "nat \<Rightarrow> nat \<Rightarrow> 32 word"

text \<open>
  Every \<^verbatim>\<open>snprintf(reason, ...); return false;\<close> of \<^verbatim>\<open>validate_board_internal\<close> is one
  constructor, carrying the loop variables the call site formats (lines 92, 96, 109, 113, 129
  and 133 of \<^verbatim>\<open>sudoku.c\<close>, in this order).
\<close>

datatype fault =
    Row_invalid int nat nat
  | Row_duplicate int nat
  | Col_invalid int nat nat
  | Col_duplicate int nat
  | Block_invalid int nat nat nat
  | Block_duplicate int nat nat nat

text \<open>
  What a loop does: it runs to its end (\<open>Continue\<close>, with the variables the code after the
  loop still reads), it leaves the function with \<^verbatim>\<open>return false\<close>, or it indexes the array
  \<^verbatim>\<open>seen[9]\<close> outside its bounds, which is undefined behaviour in C.
\<close>

datatype 'a outcome = Continue 'a | Return_false fault | Out_of_bounds

subsection \<open>Formatting\<close>

text \<open>The \<^verbatim>\<open>%d\<close> conversion of \<^verbatim>\<open>snprintf\<close>: decimal digits, a minus sign for negatives.\<close>

definition digit_char :: "nat \<Rightarrow> char" where
  "digit_char d = char_of (48 + d)"

fun digits :: "nat \<Rightarrow> string" where
  "digits n = (if n < 10 then [digit_char n] else digits (n div 10) @ [digit_char (n mod 10)])"

definition show_int :: "int \<Rightarrow> string" where
  "show_int i = (if i < 0 then CHR ''-'' # digits (nat (- i)) else digits (nat i))"

text \<open>
  \<^verbatim>\<open>snprintf(reason, reason_len, ...)\<close> writes at most \<^verbatim>\<open>reason_len - 1\<close> characters and a
  terminating zero; with \<^verbatim>\<open>reason_len = 0\<close> it writes nothing and the buffer keeps its
  content. The first argument is the content of the buffer before the call.
\<close>

definition snprintf :: "string \<Rightarrow> nat \<Rightarrow> string \<Rightarrow> string" where
  "snprintf reason reason_len s = (if reason_len = 0 then reason else take (reason_len - 1) s)"

text \<open>The six format strings, with their arguments (\<^verbatim>\<open>r+1\<close>, \<^verbatim>\<open>c+1\<close>, \<^verbatim>\<open>idx+1\<close>, \<^verbatim>\<open>br*3+1\<close>, \<^verbatim>\<open>bc*3+1\<close>).\<close>

fun format_fault :: "fault \<Rightarrow> string" where
  "format_fault (Row_invalid v r c) =
     ''Invalid number '' @ show_int v @ '' at row '' @ show_int (int (r + 1))
       @ '' col '' @ show_int (int (c + 1))"
| "format_fault (Row_duplicate v r) =
     ''Duplicate '' @ show_int v @ '' in row '' @ show_int (int (r + 1))"
| "format_fault (Col_invalid v r c) =
     ''Invalid number '' @ show_int v @ '' at row '' @ show_int (int (r + 1))
       @ '' col '' @ show_int (int (c + 1))"
| "format_fault (Col_duplicate v c) =
     ''Duplicate '' @ show_int v @ '' in column '' @ show_int (int (c + 1))"
| "format_fault (Block_invalid v idx r c) =
     ''Invalid number '' @ show_int v @ '' in 3x3 block '' @ show_int (int (idx + 1))
       @ '' at row '' @ show_int (int (r + 1)) @ '' col '' @ show_int (int (c + 1))"
| "format_fault (Block_duplicate v idx br bc) =
     ''Duplicate '' @ show_int v @ '' in 3x3 block '' @ show_int (int (idx + 1))
       @ '' (top-left row '' @ show_int (int (br * 3 + 1))
       @ '' col '' @ show_int (int (bc * 3 + 1)) @ '')''"

subsection \<open>The array \<^verbatim>\<open>seen\<close>\<close>

text \<open>
  \<^verbatim>\<open>int seen[9] = {0}\<close> holds only 0 and 1: a list of nine booleans. A read at index
  \<^verbatim>\<open>v-1\<close> is inside the array only for \<open>0 \<le> v - 1 < 9\<close>.
\<close>

definition seen_init :: "bool list" where
  "seen_init = replicate 9 False"

definition seen_get :: "bool list \<Rightarrow> int \<Rightarrow> bool option" where
  "seen_get seen i = (if 0 \<le> i \<and> nat i < length seen then Some (seen ! nat i) else None)"

definition seen_set :: "bool list \<Rightarrow> int \<Rightarrow> bool list" where
  "seen_set seen i = seen[nat i := True]"

subsection \<open>The row scan (lines 87 to 101)\<close>

function row_cells :: "board \<Rightarrow> nat \<Rightarrow> nat \<Rightarrow> bool list \<Rightarrow> bool list outcome" where
  "row_cells board r c seen =
     (if c < 9 then
        (let v = sint (board r c) in
         if v \<le> 0 \<or> v > 9 then Return_false (Row_invalid v r c)
         else (case seen_get seen (v - 1) of
                 None \<Rightarrow> Out_of_bounds
               | Some True \<Rightarrow> Return_false (Row_duplicate v r)
               | Some False \<Rightarrow> row_cells board r (c + 1) (seen_set seen (v - 1))))
      else Continue seen)"
  by pat_completeness auto
termination
  by (relation "measure (\<lambda>(board, r, c, seen). 9 - c)") auto

function check_rows :: "board \<Rightarrow> nat \<Rightarrow> unit outcome" where
  "check_rows board r =
     (if r < 9 then
        (case row_cells board r 0 seen_init of
           Continue seen \<Rightarrow> check_rows board (r + 1)
         | Return_false f \<Rightarrow> Return_false f
         | Out_of_bounds \<Rightarrow> Out_of_bounds)
      else Continue ())"
  by pat_completeness auto
termination
  by (relation "measure (\<lambda>(board, r). 9 - r)") auto

subsection \<open>The column scan (lines 104 to 118)\<close>

function col_cells :: "board \<Rightarrow> nat \<Rightarrow> nat \<Rightarrow> bool list \<Rightarrow> bool list outcome" where
  "col_cells board c r seen =
     (if r < 9 then
        (let v = sint (board r c) in
         if v \<le> 0 \<or> v > 9 then Return_false (Col_invalid v r c)
         else (case seen_get seen (v - 1) of
                 None \<Rightarrow> Out_of_bounds
               | Some True \<Rightarrow> Return_false (Col_duplicate v c)
               | Some False \<Rightarrow> col_cells board c (r + 1) (seen_set seen (v - 1))))
      else Continue seen)"
  by pat_completeness auto
termination
  by (relation "measure (\<lambda>(board, c, r, seen). 9 - r)") auto

function check_cols :: "board \<Rightarrow> nat \<Rightarrow> unit outcome" where
  "check_cols board c =
     (if c < 9 then
        (case col_cells board c 0 seen_init of
           Continue seen \<Rightarrow> check_cols board (c + 1)
         | Return_false f \<Rightarrow> Return_false f
         | Out_of_bounds \<Rightarrow> Out_of_bounds)
      else Continue ())"
  by pat_completeness auto
termination
  by (relation "measure (\<lambda>(board, c). 9 - c)") auto

subsection \<open>The block scan (lines 121 to 141)\<close>

text \<open>
  Four nested loops: \<^verbatim>\<open>br\<close> and \<^verbatim>\<open>bc\<close> choose the block, \<^verbatim>\<open>r\<close> and \<^verbatim>\<open>c\<close> the cell in it.
  The array \<^verbatim>\<open>seen\<close> lives through the two inner loops, the counter \<^verbatim>\<open>idx\<close> through the
  two outer ones.
\<close>

function block_cols ::
  "board \<Rightarrow> nat \<Rightarrow> nat \<Rightarrow> nat \<Rightarrow> nat \<Rightarrow> nat \<Rightarrow> bool list \<Rightarrow> bool list outcome" where
  "block_cols board br bc idx r c seen =
     (if c < bc * 3 + 3 then
        (let v = sint (board r c) in
         if v \<le> 0 \<or> v > 9 then Return_false (Block_invalid v idx r c)
         else (case seen_get seen (v - 1) of
                 None \<Rightarrow> Out_of_bounds
               | Some True \<Rightarrow> Return_false (Block_duplicate v idx br bc)
               | Some False \<Rightarrow> block_cols board br bc idx r (c + 1) (seen_set seen (v - 1))))
      else Continue seen)"
  by pat_completeness auto
termination
  by (relation "measure (\<lambda>(board, br, bc, idx, r, c, seen). bc * 3 + 3 - c)") auto

function block_rows ::
  "board \<Rightarrow> nat \<Rightarrow> nat \<Rightarrow> nat \<Rightarrow> nat \<Rightarrow> bool list \<Rightarrow> bool list outcome" where
  "block_rows board br bc idx r seen =
     (if r < br * 3 + 3 then
        (case block_cols board br bc idx r (bc * 3) seen of
           Continue seen' \<Rightarrow> block_rows board br bc idx (r + 1) seen'
         | Return_false f \<Rightarrow> Return_false f
         | Out_of_bounds \<Rightarrow> Out_of_bounds)
      else Continue seen)"
  by pat_completeness auto
termination
  by (relation "measure (\<lambda>(board, br, bc, idx, r, seen). br * 3 + 3 - r)") auto

function check_block_cols :: "board \<Rightarrow> nat \<Rightarrow> nat \<Rightarrow> nat \<Rightarrow> nat outcome" where
  "check_block_cols board br bc idx =
     (if bc < 3 then
        (case block_rows board br bc idx (br * 3) seen_init of
           Continue seen \<Rightarrow> check_block_cols board br (bc + 1) (idx + 1)
         | Return_false f \<Rightarrow> Return_false f
         | Out_of_bounds \<Rightarrow> Out_of_bounds)
      else Continue idx)"
  by pat_completeness auto
termination
  by (relation "measure (\<lambda>(board, br, bc, idx). 3 - bc)") auto

function check_blocks :: "board \<Rightarrow> nat \<Rightarrow> nat \<Rightarrow> nat outcome" where
  "check_blocks board br idx =
     (if br < 3 then
        (case check_block_cols board br 0 idx of
           Continue idx' \<Rightarrow> check_blocks board (br + 1) idx'
         | Return_false f \<Rightarrow> Return_false f
         | Out_of_bounds \<Rightarrow> Out_of_bounds)
      else Continue idx)"
  by pat_completeness auto
termination
  by (relation "measure (\<lambda>(board, br, idx). 3 - br)") auto

subsection \<open>\<^verbatim>\<open>validate_board_internal\<close>\<close>

text \<open>
  The result is the returned \<^verbatim>\<open>bool\<close> with the content of the buffer \<^verbatim>\<open>reason\<close> after the
  call; \<open>None\<close> stands for an out-of-bounds access to \<^verbatim>\<open>seen\<close>.
\<close>

definition validate_board_internal :: "board \<Rightarrow> string \<Rightarrow> nat \<Rightarrow> (bool \<times> string) option" where
  "validate_board_internal board reason reason_len =
     (case check_rows board 0 of
        Return_false f \<Rightarrow> Some (False, snprintf reason reason_len (format_fault f))
      | Out_of_bounds \<Rightarrow> None
      | Continue u \<Rightarrow>
          (case check_cols board 0 of
             Return_false f \<Rightarrow> Some (False, snprintf reason reason_len (format_fault f))
           | Out_of_bounds \<Rightarrow> None
           | Continue u' \<Rightarrow>
               (case check_blocks board 0 0 of
                  Return_false f \<Rightarrow> Some (False, snprintf reason reason_len (format_fault f))
                | Out_of_bounds \<Rightarrow> None
                | Continue idx \<Rightarrow> Some (True, snprintf reason reason_len ''OK''))))"

section \<open>The task queue of \<^verbatim>\<open>sudoku.c\<close>\<close>

text \<open>
  A \<^verbatim>\<open>task_node_t\<close> lives on the heap, at an address; \<open>None\<close> is the \<^verbatim>\<open>NULL\<close> pointer. The
  queue holds no task itself but a \<^verbatim>\<open>board_task_t *\<close>, for which the type parameter stands;
  the \<^verbatim>\<open>NULL\<close> task is the sentinel. \<open>nodes\<close> is the part of the heap that holds the allocated
  nodes: \<^verbatim>\<open>malloc\<close> adds to it and \<^verbatim>\<open>free\<close> removes from it, so that a pointer to a
  freed node dangles. The mutex makes the body of each operation one step; the condition
  variable is what \<open>Blocks\<close> stands for: the caller of \<^verbatim>\<open>dequeue_task\<close> waits as long as the
  queue is empty.
\<close>

type_synonym addr = nat

record 'a task_node =
  task :: "'a option"
  "next" :: "addr option"

record 'a task_queue =
  head :: "addr option"
  tail :: "addr option"
  nodes :: "addr \<rightharpoonup> 'a task_node"

text \<open>
  What a call does: it returns, it waits on the condition variable, it ends the process with
  \<^verbatim>\<open>exit\<close>, or it follows a pointer to a node that is not allocated.
\<close>

datatype 'a res = Returns 'a | Blocks | Exits nat | Invalid_access

definition queue_init :: "'a task_queue \<Rightarrow> 'a task_queue" where
  "queue_init q = q\<lparr>head := None, tail := None\<rparr>"

text \<open>
  \<^verbatim>\<open>enqueue_task(q, task)\<close>; the third argument is what its call of \<^verbatim>\<open>malloc\<close> returns. The
  writes happen in the order of the code: the new node is filled first, then linked.
\<close>

definition enqueue_task :: "'a task_queue \<Rightarrow> 'a option \<Rightarrow> addr option \<Rightarrow> 'a task_queue res" where
  "enqueue_task q t malloc =
     (case malloc of
        None \<Rightarrow> Exits 1
      | Some node \<Rightarrow>
          (let h = (nodes q)(node \<mapsto> \<lparr>task = t, next = None\<rparr>) in
           case tail q of
             None \<Rightarrow> Returns (q\<lparr>head := Some node, tail := Some node, nodes := h\<rparr>)
           | Some last_node \<Rightarrow>
               (case h last_node of
                  None \<Rightarrow> Invalid_access
                | Some n \<Rightarrow>
                    Returns (q\<lparr>tail := Some node,
                               nodes := h(last_node \<mapsto> n\<lparr>next := Some node\<rparr>)\<rparr>))))"

definition dequeue_task :: "'a task_queue \<Rightarrow> ('a option \<times> 'a task_queue) res" where
  "dequeue_task q =
     (case head q of
        None \<Rightarrow> Blocks
      | Some node \<Rightarrow>
          (case nodes q node of
             None \<Rightarrow> Invalid_access
           | Some n \<Rightarrow>
               (let q1 = q\<lparr>head := next n\<rparr>;
                    q2 = (if head q1 = None then q1\<lparr>tail := None\<rparr> else q1)
                in Returns (task n, q2\<lparr>nodes := (nodes q2)(node := None)\<rparr>))))"

subsection \<open>Sequences of calls\<close>

text \<open>
  A sequence of calls on one queue, each \<^verbatim>\<open>enqueue_task\<close> with the answer of its
  \<^verbatim>\<open>malloc\<close>. \<open>run\<close> makes the calls in order and collects what the calls of
  \<^verbatim>\<open>dequeue_task\<close> return.
\<close>

datatype 'a op = Enqueue "'a option" "addr option" | Dequeue

fun run :: "'a task_queue \<Rightarrow> 'a op list \<Rightarrow> ('a option list \<times> 'a task_queue) res" where
  "run q [] = Returns ([], q)"
| "run q (Enqueue t malloc # ops) =
     (case enqueue_task q t malloc of
        Returns q' \<Rightarrow> run q' ops
      | Blocks \<Rightarrow> Blocks
      | Exits n \<Rightarrow> Exits n
      | Invalid_access \<Rightarrow> Invalid_access)"
| "run q (Dequeue # ops) =
     (case dequeue_task q of
        Returns (t, q') \<Rightarrow>
          (case run q' ops of
             Returns (ts, q'') \<Rightarrow> Returns (t # ts, q'')
           | Blocks \<Rightarrow> Blocks
           | Exits n \<Rightarrow> Exits n
           | Invalid_access \<Rightarrow> Invalid_access)
      | Blocks \<Rightarrow> Blocks
      | Exits n \<Rightarrow> Exits n
      | Invalid_access \<Rightarrow> Invalid_access)"

text \<open>
  \<^verbatim>\<open>malloc\<close> returns \<^verbatim>\<open>NULL\<close> or the address of a block that is not allocated at the moment of
  the call. \<open>malloc_ok\<close> says so of every answer in a sequence of calls.
\<close>

definition malloc_returns :: "(addr \<rightharpoonup> 'a task_node) \<Rightarrow> addr option \<Rightarrow> bool" where
  "malloc_returns h malloc = (case malloc of None \<Rightarrow> True | Some node \<Rightarrow> h node = None)"

fun malloc_ok :: "'a task_queue \<Rightarrow> 'a op list \<Rightarrow> bool" where
  "malloc_ok q [] = True"
| "malloc_ok q (Enqueue t malloc # ops) =
     (malloc_returns (nodes q) malloc \<and>
      (case enqueue_task q t malloc of Returns q' \<Rightarrow> malloc_ok q' ops | _ \<Rightarrow> True))"
| "malloc_ok q (Dequeue # ops) =
     (case dequeue_task q of Returns (t, q') \<Rightarrow> malloc_ok q' ops | _ \<Rightarrow> True)"

definition enqueues :: "'a option list \<Rightarrow> addr list \<Rightarrow> 'a op list" where
  "enqueues ts as = map (\<lambda>(t, a). Enqueue t (Some a)) (zip ts as)"

definition empty_queue :: "nat task_queue" where
  "empty_queue = \<lparr>head = None, tail = None, nodes = Map.empty\<rparr>"

section \<open>The worker pool of \<^verbatim>\<open>sudoku.c\<close>\<close>

text \<open>
  The process is the thread of \<^verbatim>\<open>main\<close> and \<^verbatim>\<open>worker_count\<close> threads that run
  \<^verbatim>\<open>worker_loop\<close>, around the one global queue. An operation changes the queue inside its
  mutex only, so that an execution is an interleaving of steps, each with at most one queue
  operation; a thread that waits (in \<^verbatim>\<open>pthread_cond_wait\<close> or in \<^verbatim>\<open>pthread_join\<close>) has no
  step. A pointer to a task stands for the task it points to: a task is owned by one thread at
  a time and never changed.
\<close>

record board_task =
  task_id :: int
  task_board :: board

text \<open>
  A worker is about to call \<^verbatim>\<open>dequeue_task\<close>, holds a task it has dequeued, or has left its
  loop. The thread of \<^verbatim>\<open>main\<close> is at the head of the loop of line 269 with its variable
  \<^verbatim>\<open>i\<close>, in a loop that enqueues sentinels or in one that joins workers, with its variable
  \<^verbatim>\<open>w\<close> (or \<^verbatim>\<open>i\<close>): after a failed read in iteration \<open>i\<close> of the loop of line 269 these
  are the loops of lines 274 and 275 (\<open>Some i\<close>), otherwise those of lines 288 and 293
  (\<open>None\<close>). It has returned from \<^verbatim>\<open>main\<close>, or the process has ended in \<^verbatim>\<open>exit\<close>;
  \<open>Crashed\<close> stands for undefined behaviour.
\<close>

datatype worker_state = Idle_Waiting | Processing board_task | Terminated

datatype main_state =
    Submitting nat
  | Sentinels "nat option" nat
  | Joining "nat option" nat
  | Returned int
  | Exited nat
  | Crashed

record system =
  worker_count :: nat
  board_count :: nat
  queue :: "board_task task_queue"
  workers :: "worker_state list"
  main :: main_state

text \<open>What a step does that can be seen from outside.\<close>

datatype event =
    Read_failed nat
  | Malloc_failed
  | Enqueued "int option"
  | Joined nat
  | Main_returned int
  | Dequeued nat "int option"
  | Printed nat int bool string
  | Crash

text \<open>
  The state at line 269: the queue is initialised, the workers are created, the number of
  boards is read. (\<^verbatim>\<open>main\<close> sets \<^verbatim>\<open>worker_count\<close> to a positive number, 4 by default.)
  What comes before is not part of an execution here: a failed \<^verbatim>\<open>pthread_create\<close> and an
  end of input at the prompt for the number of boards (lines 253 to 256) make \<^verbatim>\<open>main\<close>
  return 1 at once. The counters of the loops are \<^verbatim>\<open>int\<close> in C and natural numbers here:
  \<^verbatim>\<open>++i\<close> in line 269 overflows only when \<^verbatim>\<open>board_count\<close> is \<^verbatim>\<open>INT_MAX\<close>.
\<close>

definition start :: "nat \<Rightarrow> nat \<Rightarrow> board_task task_queue \<Rightarrow> system" where
  "start n count q0 =
     \<lparr>worker_count = n, board_count = count, queue = queue_init q0,
      workers = replicate n Idle_Waiting, main = Submitting 1\<rparr>"

text \<open>
  A call of \<^verbatim>\<open>enqueue_task\<close> by \<^verbatim>\<open>main\<close>, which goes on at \<open>pc\<close> when the call returns.
  An answer of \<^verbatim>\<open>malloc\<close> that is the address of an allocated node is no answer: there is no
  step with it.
\<close>

definition main_enqueue ::
  "system \<Rightarrow> board_task option \<Rightarrow> addr option \<Rightarrow> main_state \<Rightarrow> (event \<times> system) option" where
  "main_enqueue s t malloc pc =
     (if malloc_returns (nodes (queue s)) malloc then
        (case enqueue_task (queue s) t malloc of
           Returns q' \<Rightarrow> Some (Enqueued (map_option task_id t), s\<lparr>queue := q', main := pc\<rparr>)
         | Blocks \<Rightarrow> None
         | Exits n \<Rightarrow> Some (Malloc_failed, s\<lparr>main := Exited n\<rparr>)
         | Invalid_access \<Rightarrow> Some (Crash, s\<lparr>main := Crashed\<rparr>))
      else None)"

text \<open>
  The loops of lines 275 and 293: \<^verbatim>\<open>pthread_join\<close> returns when the worker has left its loop;
  after the loop \<^verbatim>\<open>main\<close> returns 1 after a failed read, and 0 otherwise.
\<close>

definition join_step :: "nat option \<Rightarrow> nat \<Rightarrow> system \<Rightarrow> (event \<times> system) option" where
  "join_step failed w s =
     (if w < worker_count s then
        (case workers s ! w of
           Terminated \<Rightarrow> Some (Joined w, s\<lparr>main := Joining failed (w + 1)\<rparr>)
         | _ \<Rightarrow> None)
      else (let rc = (case failed of None \<Rightarrow> 0 | Some i \<Rightarrow> 1)
            in Some (Main_returned rc, s\<lparr>main := Returned rc\<rparr>)))"

text \<open>The loops of lines 274 and 288, followed by the joins.\<close>

definition sentinel_step ::
  "nat option \<Rightarrow> nat \<Rightarrow> system \<Rightarrow> addr option \<Rightarrow> (event \<times> system) option" where
  "sentinel_step failed w s malloc =
     (if w < worker_count s then main_enqueue s None malloc (Sentinels failed (w + 1))
      else join_step failed 0 s)"

text \<open>
  One iteration of the loop of line 269. What \<^verbatim>\<open>read_board_from_stdin\<close> returns is an input
  (\<open>None\<close> when it returns false), as is whether the \<^verbatim>\<open>malloc\<close> of the task succeeds and
  what the \<^verbatim>\<open>malloc\<close> of \<^verbatim>\<open>enqueue_task\<close> returns. After the loop come the sentinels.
\<close>

definition submit_step ::
  "nat \<Rightarrow> system \<Rightarrow> board option \<Rightarrow> bool \<Rightarrow> addr option \<Rightarrow> (event \<times> system) option" where
  "submit_step i s read task_malloc malloc =
     (if i \<le> board_count s then
        (case read of
           None \<Rightarrow> Some (Read_failed i, s\<lparr>main := Sentinels (Some i) 0\<rparr>)
         | Some b \<Rightarrow>
             if \<not> task_malloc then Some (Malloc_failed, s\<lparr>main := Exited 1\<rparr>)
             else main_enqueue s (Some \<lparr>task_id = int i, task_board = b\<rparr>) malloc
                    (Submitting (i + 1)))
      else sentinel_step None 0 s malloc)"

definition main_step ::
  "system \<Rightarrow> board option \<Rightarrow> bool \<Rightarrow> addr option \<Rightarrow> (event \<times> system) option" where
  "main_step s read task_malloc malloc =
     (case main s of
        Submitting i \<Rightarrow> submit_step i s read task_malloc malloc
      | Sentinels failed w \<Rightarrow> sentinel_step failed w s malloc
      | Joining failed w \<Rightarrow> join_step failed w s
      | Returned rc \<Rightarrow> None
      | Exited n \<Rightarrow> None
      | Crashed \<Rightarrow> None)"

text \<open>
  One step of \<^verbatim>\<open>worker_loop\<close> in worker \<open>w\<close>: it dequeues an entry and leaves the loop on
  the sentinel, or it validates the board of its task with a buffer of 128 zero bytes, prints
  the verdict and frees the task. No thread runs after the process has ended.
  (\<^verbatim>\<open>dequeue_task\<close> has no \<^verbatim>\<open>exit\<close>: that case is there for the type only.)
\<close>

definition process_alive :: "system \<Rightarrow> bool" where
  "process_alive s = (case main s of Returned rc \<Rightarrow> False | Exited n \<Rightarrow> False
     | Crashed \<Rightarrow> False | _ \<Rightarrow> True)"

definition worker_loop :: "system \<Rightarrow> nat \<Rightarrow> (event \<times> system) option" where
  "worker_loop s w =
     (if w < length (workers s) \<and> process_alive s then
        (case workers s ! w of
           Idle_Waiting \<Rightarrow>
             (case dequeue_task (queue s) of
                Returns (None, q') \<Rightarrow>
                  Some (Dequeued w None,
                        s\<lparr>queue := q', workers := (workers s)[w := Terminated]\<rparr>)
              | Returns (Some t, q') \<Rightarrow>
                  Some (Dequeued w (Some (task_id t)),
                        s\<lparr>queue := q', workers := (workers s)[w := Processing t]\<rparr>)
              | Blocks \<Rightarrow> None
              | Exits n \<Rightarrow> Some (Crash, s\<lparr>main := Crashed\<rparr>)
              | Invalid_access \<Rightarrow> Some (Crash, s\<lparr>main := Crashed\<rparr>))
         | Processing t \<Rightarrow>
             (case validate_board_internal (task_board t) [] 128 of
                None \<Rightarrow> Some (Crash, s\<lparr>main := Crashed\<rparr>)
              | Some (ok, reason) \<Rightarrow>
                  Some (Printed w (task_id t) ok reason,
                        s\<lparr>workers := (workers s)[w := Idle_Waiting]\<rparr>))
         | Terminated \<Rightarrow> None)
      else None)"

text \<open>
  An execution is given by a schedule: which thread is to make a step, and for \<^verbatim>\<open>main\<close> with
  which inputs. A thread that has no step is passed over.
\<close>

datatype choice = Main "board option" bool "addr option" | Worker nat

fun sys_step :: "system \<Rightarrow> choice \<Rightarrow> (event \<times> system) option" where
  "sys_step s (Main read task_malloc malloc) = main_step s read task_malloc malloc"
| "sys_step s (Worker w) = worker_loop s w"

fun sys_run :: "system \<Rightarrow> choice list \<Rightarrow> event list \<times> system" where
  "sys_run s [] = ([], s)"
| "sys_run s (c # cs) =
     (case sys_step s c of
        None \<Rightarrow> sys_run s cs
      | Some (e, s') \<Rightarrow> (case sys_run s' cs of (es, s'') \<Rightarrow> (e # es, s'')))"

text \<open>
  What an execution shows: the events of the thread of \<^verbatim>\<open>main\<close>, and the entries that
  worker \<open>w\<close> has dequeued.
\<close>

definition is_main :: "event \<Rightarrow> bool" where
  "is_main e = (case e of Dequeued w x \<Rightarrow> False | Printed w i ok reason \<Rightarrow> False | _ \<Rightarrow> True)"

definition main_events :: "event list \<Rightarrow> event list" where
  "main_events es = filter is_main es"

definition dequeued_by :: "nat \<Rightarrow> event list \<Rightarrow> int option list" where
  "dequeued_by w es =
     concat (map (\<lambda>e. case e of Dequeued w' x \<Rightarrow> if w' = w then [x] else [] | _ \<Rightarrow> []) es)"

text \<open>
  The events of \<^verbatim>\<open>main\<close> before the shutdown: the tasks \<open>1, \<dots>, i - 1\<close> have been enqueued,
  and then either all \<^verbatim>\<open>board_count\<close> tasks are in, or the read of board \<open>i\<close> has failed.
  After a failed read \<^verbatim>\<open>main\<close> only enqueues sentinels, joins, and returns 1 or exits.
\<close>

definition submitted :: "nat \<Rightarrow> event list" where
  "submitted i = map (\<lambda>j. Enqueued (Some (int j))) [1..<i]"

definition before_shutdown :: "nat \<Rightarrow> nat option \<Rightarrow> event list" where
  "before_shutdown count f =
     (case f of None \<Rightarrow> submitted (count + 1) | Some i \<Rightarrow> submitted i @ [Read_failed i])"

definition after_failure :: "event set" where
  "after_failure = insert (Enqueued None) (insert Malloc_failed
     (insert (Main_returned 1) (range Joined)))"

section \<open>What the specification says about the validator\<close>

text \<open>
  A unit is a row, a column or a 3x3 block, numbered from 0; blocks are numbered in row-major
  order. \<open>unit_cells\<close> lists the cells of a unit in the order of the specification: a row from
  left to right, a column from top to bottom, a block in row-major order.
\<close>

datatype unit_kind = Row | Column | Block

fun unit_cells :: "unit_kind \<Rightarrow> nat \<Rightarrow> (nat \<times> nat) list" where
  "unit_cells Row u = map (Pair u) [0..<9]"
| "unit_cells Column u = map (\<lambda>r. (r, u)) [0..<9]"
| "unit_cells Block u =
     concat (map (\<lambda>r. map (Pair r) [(u mod 3) * 3..<(u mod 3) * 3 + 3])
       [(u div 3) * 3..<(u div 3) * 3 + 3])"

definition cell_val :: "board \<Rightarrow> nat \<times> nat \<Rightarrow> int" where
  "cell_val board rc = sint (board (fst rc) (snd rc))"

definition unit_vals :: "board \<Rightarrow> unit_kind \<Rightarrow> nat \<Rightarrow> int list" where
  "unit_vals board k u = map (cell_val board) (unit_cells k u)"

text \<open>A unit is right when it holds each of the values 1 to 9 exactly once.\<close>

definition unit_ok :: "int list \<Rightarrow> bool" where
  "unit_ok vs = (\<forall>v\<in>{1..9}. count_list vs v = 1)"

definition units_ok :: "board \<Rightarrow> unit_kind \<Rightarrow> bool" where
  "units_ok board k = (\<forall>u\<in>{..<9}. unit_ok (unit_vals board k u))"

definition sudoku_ok :: "board \<Rightarrow> bool" where
  "sudoku_ok board = (units_ok board Row \<and> units_ok board Column \<and> units_ok board Block)"

text \<open>
  A violation, as the specification orders them: position \<open>p\<close> of a unit is one when its value
  is outside 1..9 or repeats the value of an earlier position of the same unit. The first
  violation of a board is the earliest position of the earliest unit of the earliest scan
  (rows, then columns, then blocks) that has one.
\<close>

definition violation :: "int list \<Rightarrow> nat \<Rightarrow> bool" where
  "violation vs p = (vs ! p \<le> 0 \<or> vs ! p > 9 \<or> vs ! p \<in> set (take p vs))"

definition unit_first_violation :: "int list \<Rightarrow> nat option" where
  "unit_first_violation vs = find (violation vs) [0..<length vs]"

fun first_some :: "('a \<Rightarrow> 'b option) \<Rightarrow> 'a list \<Rightarrow> 'b option" where
  "first_some f [] = None"
| "first_some f (x # xs) = (case f x of Some y \<Rightarrow> Some y | None \<Rightarrow> first_some f xs)"

definition scan_first_violation :: "board \<Rightarrow> unit_kind \<Rightarrow> (nat \<times> nat) option" where
  "scan_first_violation board k =
     first_some (\<lambda>u. map_option (Pair u) (unit_first_violation (unit_vals board k u))) [0..<9]"

definition first_violation :: "board \<Rightarrow> (unit_kind \<times> nat \<times> nat) option" where
  "first_violation board =
     first_some (\<lambda>k. map_option (Pair k) (scan_first_violation board k)) [Row, Column, Block]"

text \<open>
  The reason the specification expects for a violation at position \<open>p\<close> of unit \<open>u\<close>: the
  value, the 1-based number of the unit and, for a value outside 1..9, that it is an invalid
  number and where.
\<close>

definition expected_reason :: "board \<Rightarrow> unit_kind \<Rightarrow> nat \<Rightarrow> nat \<Rightarrow> string" where
  "expected_reason board k u p =
     (let v = unit_vals board k u ! p in
      case k of
        Row \<Rightarrow>
          if v \<le> 0 \<or> v > 9
          then ''Invalid number '' @ show_int v @ '' at row '' @ show_int (int u + 1)
                 @ '' col '' @ show_int (int p + 1)
          else ''Duplicate '' @ show_int v @ '' in row '' @ show_int (int u + 1)
      | Column \<Rightarrow> ''Duplicate '' @ show_int v @ '' in column '' @ show_int (int u + 1)
      | Block \<Rightarrow>
          ''Duplicate '' @ show_int v @ '' in 3x3 block '' @ show_int (int u + 1)
            @ '' (top-left row '' @ show_int (3 * int (u div 3) + 1)
            @ '' col '' @ show_int (3 * int (u mod 3) + 1) @ '')'')"

text \<open>Exchanging the contents of the cells \<open>(r, c1)\<close> and \<open>(r, c2)\<close> of one row.\<close>

definition swap_in_row :: "board \<Rightarrow> nat \<Rightarrow> nat \<Rightarrow> nat \<Rightarrow> board" where
  "swap_in_row board r c1 c2 = board(r := (board r)(c1 := board r c2, c2 := board r c1))"

subsection \<open>Boards used as examples\<close>

definition board_of :: "int list list \<Rightarrow> board" where
  "board_of rows r c = word_of_int (rows ! r ! c)"

text \<open>The solved grid of the specification (row 1 is 5 3 4 6 7 8 9 1 2).\<close>

definition solved :: board where
  "solved = board_of
    [[5,3,4,6,7,8,9,1,2],
     [6,7,2,1,9,5,3,4,8],
     [1,9,8,3,4,2,5,6,7],
     [8,5,9,7,6,1,4,2,3],
     [4,2,6,8,5,3,7,9,1],
     [7,1,3,9,2,4,8,5,6],
     [9,6,1,5,3,7,2,8,4],
     [2,8,7,4,1,9,6,3,5],
     [3,4,5,2,8,6,1,7,9]]"

text \<open>The solved grid with a zero in its first cell.\<close>

definition with_zero :: board where
  "with_zero = solved(0 := (solved 0)(0 := 0))"

text \<open>A cyclic Latin square: every row and column is right, no block is.\<close>

definition latin :: board where
  "latin = board_of
    [[1,2,3,4,5,6,7,8,9],
     [2,3,4,5,6,7,8,9,1],
     [3,4,5,6,7,8,9,1,2],
     [4,5,6,7,8,9,1,2,3],
     [5,6,7,8,9,1,2,3,4],
     [6,7,8,9,1,2,3,4,5],
     [7,8,9,1,2,3,4,5,6],
     [8,9,1,2,3,4,5,6,7],
     [9,1,2,3,4,5,6,7,8]]"

section \<open>What the specification says about the queue\<close>

text \<open>
  The queue of the specification is a list of entries: \<^verbatim>\<open>enqueue\<close> appends at the end,
  \<^verbatim>\<open>dequeue\<close> takes from the front and waits when there is nothing; \<open>fifo\<close> makes a sequence
  of calls on it. The shape the code keeps: \<^verbatim>\<open>head\<close> is \<^verbatim>\<open>NULL\<close> exactly when \<^verbatim>\<open>tail\<close> is.
\<close>

fun fifo :: "'a option list \<Rightarrow> 'a op list \<Rightarrow> ('a option list \<times> 'a option list) res" where
  "fifo xs [] = Returns ([], xs)"
| "fifo xs (Enqueue t malloc # ops) =
     (case malloc of None \<Rightarrow> Exits 1 | Some node \<Rightarrow> fifo (xs @ [t]) ops)"
| "fifo xs (Dequeue # ops) =
     (case xs of
        [] \<Rightarrow> Blocks
      | x # xs' \<Rightarrow>
          (case fifo xs' ops of
             Returns (ts, ys) \<Rightarrow> Returns (x # ts, ys)
           | Blocks \<Rightarrow> Blocks
           | Exits n \<Rightarrow> Exits n
           | Invalid_access \<Rightarrow> Invalid_access))"

definition head_tail_inv :: "'a task_queue \<Rightarrow> bool" where
  "head_tail_inv q = ((head q = None) = (tail q = None))"

subsection \<open>Executions used as examples\<close>

text \<open>
  Two workers; the heap holds no node at the start. In \<open>normal_run\<close> one board is submitted;
  in \<open>failed_read_run\<close> two are expected and the second read fails.
\<close>

definition no_nodes :: "board_task task_queue" where
  "no_nodes = \<lparr>head = None, tail = None, nodes = Map.empty\<rparr>"

definition normal_run :: "choice list" where
  "normal_run =
     [Main (Some solved) True (Some 5), Worker 0, Worker 1, Worker 0,
      Main None True (Some 6), Main None True (Some 5), Main None True None,
      Worker 1, Main None True None, Worker 0, Main None True None,
      Main None True None, Main None True None, Worker 0]"

definition failed_read_run :: "choice list" where
  "failed_read_run =
     [Main (Some solved) True (Some 5), Main None True None, Main (Some solved) True (Some 6),
      Worker 0, Main None True (Some 7), Worker 0, Worker 0, Worker 1,
      Main None True None, Main None True None, Main None True None]"

section \<open>Notions used in the proofs\<close>

text \<open>
  The three cell loops have the same body, up to the fault they return. \<open>scan_cells\<close> is
  that body over a list of cells; the loops of the code are shown below to be instances.
\<close>

fun scan_cells ::
  "(int \<Rightarrow> nat \<Rightarrow> nat \<Rightarrow> fault) \<Rightarrow> (int \<Rightarrow> fault) \<Rightarrow> board \<Rightarrow> (nat \<times> nat) list
     \<Rightarrow> bool list \<Rightarrow> bool list outcome" where
  "scan_cells bad dup board [] seen = Continue seen"
| "scan_cells bad dup board ((r, c) # cells) seen =
     (let v = sint (board r c) in
      if v \<le> 0 \<or> v > 9 then Return_false (bad v r c)
      else (case seen_get seen (v - 1) of
              None \<Rightarrow> Out_of_bounds
            | Some True \<Rightarrow> Return_false (dup v)
            | Some False \<Rightarrow> scan_cells bad dup board cells (seen_set seen (v - 1))))"

text \<open>The first value of a list that is outside 1..9, in \<open>S\<close>, or a repetition.\<close>

fun first_bad :: "int set \<Rightarrow> int list \<Rightarrow> nat option" where
  "first_bad S [] = None"
| "first_bad S (v # vs) =
     (if v \<le> 0 \<or> v > 9 \<or> v \<in> S then Some 0 else map_option Suc (first_bad (insert v S) vs))"

text \<open>The array \<^verbatim>\<open>seen\<close> marks exactly the values of \<open>S\<close>.\<close>

definition seen_of :: "int set \<Rightarrow> bool list \<Rightarrow> bool" where
  "seen_of S seen = (length seen = 9 \<and> (\<forall>k<9. seen ! k = (int k + 1 \<in> S)))"

definition fault_at ::
  "(int \<Rightarrow> nat \<Rightarrow> nat \<Rightarrow> fault) \<Rightarrow> (int \<Rightarrow> fault) \<Rightarrow> board \<Rightarrow> nat \<times> nat \<Rightarrow> fault" where
  "fault_at bad dup board rc =
     (let v = cell_val board rc in
      if v \<le> 0 \<or> v > 9 then bad v (fst rc) (snd rc) else dup v)"

fun unit_fault :: "board \<Rightarrow> unit_kind \<Rightarrow> nat \<Rightarrow> nat \<Rightarrow> fault" where
  "unit_fault board Row u p =
     fault_at Row_invalid (\<lambda>v. Row_duplicate v u) board (unit_cells Row u ! p)"
| "unit_fault board Column u p =
     fault_at Col_invalid (\<lambda>v. Col_duplicate v u) board (unit_cells Column u ! p)"
| "unit_fault board Block u p =
     fault_at (\<lambda>v. Block_invalid v u) (\<lambda>v. Block_duplicate v u (u div 3) (u mod 3)) board
       (unit_cells Block u ! p)"

definition unit_scan :: "board \<Rightarrow> unit_kind \<Rightarrow> nat \<Rightarrow> (nat \<times> nat) option" where
  "unit_scan board k u = map_option (Pair u) (unit_first_violation (unit_vals board k u))"

definition scan_result :: "'a \<Rightarrow> board \<Rightarrow> unit_kind \<Rightarrow> nat list \<Rightarrow> 'a outcome" where
  "scan_result a board k us =
     (case first_some (unit_scan board k) us of
        None \<Rightarrow> Continue a
      | Some (u, p) \<Rightarrow> Return_false (unit_fault board k u p))"

text \<open>
  The linked list behind a queue: \<open>path h p as\<close> says that following \<^verbatim>\<open>next\<close> from the
  pointer \<open>p\<close> visits the nodes at the addresses \<open>as\<close> and then reaches \<^verbatim>\<open>NULL\<close>. A queue
  stands for the list \<open>xs\<close> of entries when its nodes, from \<^verbatim>\<open>head\<close>, are at distinct
  addresses, \<^verbatim>\<open>tail\<close> points to the last of them, and their tasks are \<open>xs\<close>.
\<close>

fun path :: "(addr \<rightharpoonup> 'a task_node) \<Rightarrow> addr option \<Rightarrow> addr list \<Rightarrow> bool" where
  "path h p [] = (p = None)"
| "path h p (a # as) =
     (p = Some a \<and> (case h a of None \<Rightarrow> False | Some n \<Rightarrow> path h (next n) as))"

definition queue_rel :: "'a task_queue \<Rightarrow> addr list \<Rightarrow> 'a option list \<Rightarrow> bool" where
  "queue_rel q as xs =
     (path (nodes q) (head q) as \<and> distinct as \<and>
      tail q = (if as = [] then None else Some (last as)) \<and>
      xs = map (\<lambda>a. case nodes q a of None \<Rightarrow> None | Some n \<Rightarrow> task n) as)"

text \<open>
  For the pool: the workers that have not left their loop, and those that hold a task; the
  number of sentinels \<^verbatim>\<open>main\<close> has enqueued at a program point; a number that every step of
  \<^verbatim>\<open>main\<close> decreases; what holds of the state at a program point; the events of \<^verbatim>\<open>main\<close>
  up to a program point; what a worker has dequeued. \<open>inv_at\<close> puts them together: the
  sentinels in the queue are as many as the sentinels enqueued less the workers that have
  left their loop.
\<close>

definition live :: "worker_state list \<Rightarrow> nat" where
  "live ws = length (filter (\<lambda>x. x \<noteq> Terminated) ws)"

definition busy :: "worker_state list \<Rightarrow> nat" where
  "busy ws = length (filter (\<lambda>x. \<exists>t. x = Processing t) ws)"

fun sent :: "nat \<Rightarrow> main_state \<Rightarrow> nat" where
  "sent n (Submitting i) = 0"
| "sent n (Sentinels f w) = w"
| "sent n (Joining f w) = n"
| "sent n (Returned rc) = n"
| "sent n (Exited c) = 0"
| "sent n Crashed = 0"

fun rank :: "nat \<Rightarrow> nat \<Rightarrow> main_state \<Rightarrow> nat" where
  "rank n count (Submitting i) = 3 * (count + 1 - i) + 4 * n + 2"
| "rank n count (Sentinels f w) = 3 * (n - w) + n + 1"
| "rank n count (Joining f w) = (n - w) + 1"
| "rank n count (Returned rc) = 0"
| "rank n count (Exited c) = 0"
| "rank n count Crashed = 0"

fun pc_inv :: "main_state \<Rightarrow> system \<Rightarrow> bool" where
  "pc_inv (Submitting i) s = (1 \<le> i \<and> i \<le> board_count s + 1)"
| "pc_inv (Sentinels f w) s = (w \<le> worker_count s)"
| "pc_inv (Joining f w) s = (w \<le> worker_count s \<and> (\<forall>j<w. workers s ! j = Terminated))"
| "pc_inv (Returned rc) s = (\<forall>j<worker_count s. workers s ! j = Terminated)"
| "pc_inv (Exited c) s = (c = 1)"
| "pc_inv Crashed s = False"

fun main_trace :: "nat \<Rightarrow> nat \<Rightarrow> main_state \<Rightarrow> event list \<Rightarrow> bool" where
  "main_trace n count (Submitting i) tr = (tr = submitted i)"
| "main_trace n count (Sentinels f w) tr =
     (tr = before_shutdown count f @ replicate w (Enqueued None))"
| "main_trace n count (Joining f w) tr =
     (tr = before_shutdown count f @ replicate n (Enqueued None) @ map Joined [0..<w])"
| "main_trace n count (Returned rc) tr =
     (\<exists>f. rc = (case f of None \<Rightarrow> 0 | Some i \<Rightarrow> 1) \<and>
          tr = before_shutdown count f @ replicate n (Enqueued None) @ map Joined [0..<n]
                 @ [Main_returned rc])"
| "main_trace n count (Exited c) tr =
     ((\<exists>i. tr = submitted i @ [Malloc_failed]) \<or>
      (\<exists>f w. w < n \<and>
         tr = before_shutdown count f @ replicate w (Enqueued None) @ [Malloc_failed]))"
| "main_trace n count Crashed tr = False"

definition worker_hist :: "int option list \<Rightarrow> worker_state \<Rightarrow> bool" where
  "worker_hist d st =
     (None \<notin> set (butlast d) \<and> ((st = Terminated) = (d \<noteq> [] \<and> last d = None)))"

definition bound :: "system \<Rightarrow> nat" where
  "bound s = 3 * board_count s + 4 * worker_count s + 2"

definition balance :: "main_state \<Rightarrow> system \<Rightarrow> board_task option list \<Rightarrow> bool" where
  "balance pc s xs =
     (case pc of
        Exited c \<Rightarrow> True
      | Crashed \<Rightarrow> True
      | _ \<Rightarrow> sent (worker_count s) pc + live (workers s)
             = worker_count s + count_list xs None)"

definition inv_at :: "main_state \<Rightarrow> event list \<Rightarrow> system \<Rightarrow> bool" where
  "inv_at pc es s =
     ((\<exists>as xs. queue_rel (queue s) as xs \<and>
         balance pc s xs \<and>
         length es + rank (worker_count s) (board_count s) pc + 2 * length xs
           + busy (workers s) \<le> bound s) \<and>
      length (workers s) = worker_count s \<and>
      pc_inv pc s \<and>
      main_trace (worker_count s) (board_count s) pc (main_events es) \<and>
      (\<forall>w<worker_count s. worker_hist (dequeued_by w es) (workers s ! w)))"

definition good :: "event \<Rightarrow> bool" where
  "good e = (e \<noteq> Malloc_failed \<and> e \<noteq> Crash)"

section \<open>The loops of the validator, unit by unit\<close>

declare row_cells.simps [simp del] check_rows.simps [simp del]
  col_cells.simps [simp del] check_cols.simps [simp del]
  block_cols.simps [simp del] block_rows.simps [simp del]
  check_block_cols.simps [simp del] check_blocks.simps [simp del]
  digits.simps [simp del]

lemma row_cells_scan:
  "c \<le> 9 \<Longrightarrow> row_cells board r c seen =
     scan_cells Row_invalid (\<lambda>v. Row_duplicate v r) board (map (Pair r) [c..<9]) seen"
proof (induction board r c seen rule: row_cells.induct)
  case (1 board r c seen)
  show ?case
  proof (cases "c < 9")
    case True
    then have u: "[c..<9] = c # [c + 1..<9]" by (simp add: upt_conv_Cons)
    show ?thesis
      using True 1
      by (subst row_cells.simps) (simp add: u Let_def split: option.splits bool.splits)
  next
    case False
    then show ?thesis by (subst row_cells.simps) simp
  qed
qed

lemma col_cells_scan:
  "r \<le> 9 \<Longrightarrow> col_cells board c r seen =
     scan_cells Col_invalid (\<lambda>v. Col_duplicate v c) board (map (\<lambda>r. (r, c)) [r..<9]) seen"
proof (induction board c r seen rule: col_cells.induct)
  case (1 board c r seen)
  show ?case
  proof (cases "r < 9")
    case True
    then have u: "[r..<9] = r # [r + 1..<9]" by (simp add: upt_conv_Cons)
    show ?thesis
      using True 1
      by (subst col_cells.simps) (simp add: u Let_def split: option.splits bool.splits)
  next
    case False
    then show ?thesis by (subst col_cells.simps) simp
  qed
qed

lemma block_cols_scan:
  "block_cols board br bc idx r c seen =
     scan_cells (\<lambda>v. Block_invalid v idx) (\<lambda>v. Block_duplicate v idx br bc) board
       (map (Pair r) [c..<bc * 3 + 3]) seen"
proof (induction board br bc idx r c seen rule: block_cols.induct)
  case (1 board br bc idx r c seen)
  show ?case
  proof (cases "c < bc * 3 + 3")
    case True
    then have u: "[c..<bc * 3 + 3] = c # [c + 1..<bc * 3 + 3]" by (simp add: upt_conv_Cons)
    show ?thesis
      using True 1
      by (subst block_cols.simps) (simp add: u Let_def split: option.splits bool.splits)
  next
    case False
    then show ?thesis by (subst block_cols.simps) simp
  qed
qed

lemma scan_cells_append:
  "scan_cells bad dup board (xs @ ys) seen =
     (case scan_cells bad dup board xs seen of
        Continue seen' \<Rightarrow> scan_cells bad dup board ys seen'
      | Return_false f \<Rightarrow> Return_false f
      | Out_of_bounds \<Rightarrow> Out_of_bounds)"
  by (induction xs arbitrary: seen) (auto simp: Let_def split: option.splits bool.splits)

lemma block_rows_scan:
  "block_rows board br bc idx r seen =
     scan_cells (\<lambda>v. Block_invalid v idx) (\<lambda>v. Block_duplicate v idx br bc) board
       (concat (map (\<lambda>r. map (Pair r) [bc * 3..<bc * 3 + 3]) [r..<br * 3 + 3])) seen"
proof (induction board br bc idx r seen rule: block_rows.induct)
  case (1 board br bc idx r seen)
  show ?case
  proof (cases "r < br * 3 + 3")
    case True
    then have u: "[r..<br * 3 + 3] = r # [r + 1..<br * 3 + 3]" by (simp add: upt_conv_Cons)
    show ?thesis
      using True 1
      by (subst block_rows.simps)
        (simp add: u scan_cells_append block_cols_scan split: outcome.splits)
  next
    case False
    then show ?thesis by (subst block_rows.simps) simp
  qed
qed

lemma cell_val_pair [simp]: "cell_val board (r, c) = sint (board r c)"
  by (simp add: cell_val_def)

lemma seen_of_init: "seen_of {} seen_init"
  by (simp add: seen_of_def seen_init_def)

lemma seen_of_get:
  "seen_of S seen \<Longrightarrow> 0 < v \<Longrightarrow> v \<le> 9 \<Longrightarrow> seen_get seen (v - 1) = Some (v \<in> S)"
  by (auto simp: seen_of_def seen_get_def)

lemma seen_of_set:
  assumes "seen_of S seen" "0 < v" "v \<le> 9"
  shows "seen_of (insert v S) (seen_set seen (v - 1))"
proof -
  have "nat (v - 1) < 9" using assms by simp
  moreover have "int k + 1 = v \<longleftrightarrow> k = nat (v - 1)" for k using assms by auto
  ultimately show ?thesis
    using assms by (auto simp: seen_of_def seen_set_def nth_list_update)
qed

lemma scan_cells_bad:
  "seen_of S seen \<Longrightarrow> first_bad S (map (cell_val board) cells) = Some p \<Longrightarrow>
     scan_cells bad dup board cells seen = Return_false (fault_at bad dup board (cells ! p))"
proof (induction cells arbitrary: S seen p)
  case Nil
  then show ?case by simp
next
  case (Cons rc cells)
  obtain r c where rc: "rc = (r, c)" by (cases rc)
  show ?case
  proof (cases "sint (board r c) \<le> 0 \<or> sint (board r c) > 9")
    case True
    with Cons.prems show ?thesis by (auto simp: rc fault_at_def)
  next
    case False
    then have rng: "0 < sint (board r c)" "sint (board r c) \<le> 9" by auto
    show ?thesis
    proof (cases "sint (board r c) \<in> S")
      case True
      with Cons.prems False show ?thesis
        by (auto simp: rc fault_at_def seen_of_get [OF Cons.prems(1) rng])
    next
      case notin: False
      from Cons.prems(2) False notin obtain q where
        q: "first_bad (insert (sint (board r c)) S) (map (cell_val board) cells) = Some q"
        and p: "p = Suc q"
        by (auto simp: rc)
      from Cons.IH [OF seen_of_set [OF Cons.prems(1) rng] q] False notin show ?thesis
        by (simp add: rc p seen_of_get [OF Cons.prems(1) rng])
    qed
  qed
qed

lemma scan_cells_good:
  "seen_of S seen \<Longrightarrow> first_bad S (map (cell_val board) cells) = None \<Longrightarrow>
     \<exists>seen'. scan_cells bad dup board cells seen = Continue seen'
       \<and> seen_of (S \<union> cell_val board ` set cells) seen'"
proof (induction cells arbitrary: S seen)
  case Nil
  then show ?case by simp
next
  case (Cons rc cells)
  obtain r c where rc: "rc = (r, c)" by (cases rc)
  from Cons.prems(2) have rng: "0 < sint (board r c)" "sint (board r c) \<le> 9"
    and notin: "sint (board r c) \<notin> S"
    and rest: "first_bad (insert (sint (board r c)) S) (map (cell_val board) cells) = None"
    by (auto simp: rc split: if_splits)
  from Cons.IH [OF seen_of_set [OF Cons.prems(1) rng] rest]
  show ?case using rng notin
    by (simp add: rc seen_of_get [OF Cons.prems(1) rng])
qed

lemma find_map_option:
  "find P (map f xs) = map_option f (find (P \<circ> f) xs)"
  by (induction xs) auto

lemma first_bad_find:
  "first_bad S vs =
     find (\<lambda>p. vs ! p \<le> 0 \<or> vs ! p > 9 \<or> vs ! p \<in> S \<union> set (take p vs)) [0..<length vs]"
proof (induction vs arbitrary: S)
  case Nil
  then show ?case by simp
next
  case (Cons v vs)
  have u: "[0..<length (v # vs)] = 0 # map Suc [0..<length vs]"
    by (simp add: upt_conv_Cons map_Suc_upt del: upt_Suc)
  show ?case
    unfolding u
    by (auto simp: find_map_option Cons.IH comp_def
        intro!: arg_cong [where f = "map_option Suc"] find_cong)
qed

lemma first_bad_unit: "first_bad {} vs = unit_first_violation vs"
  by (simp add: first_bad_find unit_first_violation_def violation_def [abs_def])

lemma first_bad_None:
  "first_bad S vs = None \<longleftrightarrow> (\<forall>v\<in>set vs. 0 < v \<and> v \<le> 9 \<and> v \<notin> S) \<and> distinct vs"
  by (induction vs arbitrary: S) auto

lemma distinct_count_list:
  "distinct xs \<Longrightarrow> count_list xs x = (if x \<in> set xs then 1 else 0)"
  by (induction xs) auto

lemma unit_ok_iff:
  assumes len: "length vs = 9"
  shows "unit_ok vs \<longleftrightarrow> (\<forall>v\<in>set vs. 0 < v \<and> v \<le> 9) \<and> distinct vs"
proof
  assume ok: "unit_ok vs"
  have sub: "{1..9} \<subseteq> set vs"
  proof
    fix v :: int assume "v \<in> {1..9}"
    with ok have "count_list vs v = 1" by (simp add: unit_ok_def)
    then show "v \<in> set vs" using count_list_0_iff [of vs v] by auto
  qed
  have "card {1..9::int} \<le> card (set vs)" by (rule card_mono [OF _ sub]) simp
  moreover have "card (set vs) \<le> length vs" by (rule card_length)
  ultimately have c: "card (set vs) = 9" using len by simp
  then have d: "distinct vs" using len by (simp add: card_distinct)
  have "{1..9} = set vs" by (rule card_subset_eq [OF _ sub]) (simp_all add: c)
  then have "set vs = {1..9}" by simp
  with d show "(\<forall>v\<in>set vs. 0 < v \<and> v \<le> 9) \<and> distinct vs" by auto
next
  assume a: "(\<forall>v\<in>set vs. 0 < v \<and> v \<le> 9) \<and> distinct vs"
  then have sub: "set vs \<subseteq> {1..9}" by auto
  from a have "card (set vs) = 9" using len by (simp add: distinct_card)
  then have "set vs = {1..9}" by (intro card_subset_eq [OF _ sub]) simp_all
  with a show "unit_ok vs" by (simp add: unit_ok_def distinct_count_list)
qed

lemma unit_ok_first_bad:
  "length vs = 9 \<Longrightarrow> unit_ok vs \<longleftrightarrow> unit_first_violation vs = None"
  by (simp add: unit_ok_iff first_bad_unit [symmetric] first_bad_None)

lemma length_unit_cells [simp]: "length (unit_cells k u) = 9"
  by (cases k) (simp_all add: length_concat comp_def sum_list_triv)

lemma length_unit_vals [simp]: "length (unit_vals board k u) = 9"
  by (simp add: unit_vals_def)

lemma scan_cells_unit:
  "case unit_first_violation (map (cell_val board) cells) of
     None \<Rightarrow> \<exists>seen'. scan_cells bad dup board cells seen_init = Continue seen'
   | Some p \<Rightarrow> scan_cells bad dup board cells seen_init
       = Return_false (fault_at bad dup board (cells ! p))"
proof (cases "unit_first_violation (map (cell_val board) cells)")
  case None
  then have "first_bad {} (map (cell_val board) cells) = None" by (simp add: first_bad_unit)
  from scan_cells_good [OF seen_of_init this] None show ?thesis by auto
next
  case (Some p)
  then have "first_bad {} (map (cell_val board) cells) = Some p" by (simp add: first_bad_unit)
  from scan_cells_bad [OF seen_of_init this] Some show ?thesis by simp
qed

lemma row_unit:
  "case unit_scan board Row r of
     None \<Rightarrow> \<exists>seen'. row_cells board r 0 seen_init = Continue seen'
   | Some (u, p) \<Rightarrow> row_cells board r 0 seen_init = Return_false (unit_fault board Row u p)"
  using scan_cells_unit [where board = board and cells = "unit_cells Row r"
      and bad = Row_invalid and dup = "\<lambda>v. Row_duplicate v r"]
  by (simp add: row_cells_scan unit_scan_def unit_vals_def split: option.splits)

lemma col_unit:
  "case unit_scan board Column c of
     None \<Rightarrow> \<exists>seen'. col_cells board c 0 seen_init = Continue seen'
   | Some (u, p) \<Rightarrow> col_cells board c 0 seen_init = Return_false (unit_fault board Column u p)"
  using scan_cells_unit [where board = board and cells = "unit_cells Column c"
      and bad = Col_invalid and dup = "\<lambda>v. Col_duplicate v c"]
  by (simp add: col_cells_scan unit_scan_def unit_vals_def split: option.splits)

lemma block_unit:
  assumes "bc < 3"
  shows "case unit_scan board Block (br * 3 + bc) of
     None \<Rightarrow> \<exists>seen'. block_rows board br bc (br * 3 + bc) (br * 3) seen_init = Continue seen'
   | Some (u, p) \<Rightarrow> block_rows board br bc (br * 3 + bc) (br * 3) seen_init
       = Return_false (unit_fault board Block u p)"
proof -
  have dm: "bc div 3 = 0" "bc mod 3 = bc" using assms by auto
  show ?thesis
    using scan_cells_unit [where board = board and cells = "unit_cells Block (br * 3 + bc)"
        and bad = "\<lambda>v. Block_invalid v (br * 3 + bc)"
        and dup = "\<lambda>v. Block_duplicate v (br * 3 + bc) br bc"]
    by (simp add: block_rows_scan unit_scan_def unit_vals_def dm split: option.splits)
qed

lemma scan_result_Nil [simp]: "scan_result a board k [] = Continue a"
  by (simp add: scan_result_def)

lemma scan_result_Cons:
  "scan_result a board k (u # us) =
     (case unit_scan board k u of
        None \<Rightarrow> scan_result a board k us
      | Some (u', p) \<Rightarrow> Return_false (unit_fault board k u' p))"
  by (simp add: scan_result_def split: option.splits)

lemma first_some_append:
  "first_some f (xs @ ys) = (case first_some f xs of Some y \<Rightarrow> Some y | None \<Rightarrow> first_some f ys)"
  by (induction xs) (auto split: option.splits)

lemma scan_result_append:
  "scan_result a board k (us @ vs) =
     (case scan_result b board k us of
        Continue x \<Rightarrow> scan_result a board k vs
      | Return_false f \<Rightarrow> Return_false f
      | Out_of_bounds \<Rightarrow> Out_of_bounds)"
  by (simp add: scan_result_def first_some_append split: option.splits)

lemma check_rows_char:
  "r \<le> 9 \<Longrightarrow> check_rows board r = scan_result () board Row [r..<9]"
proof (induction board r rule: check_rows.induct)
  case (1 board r)
  show ?case
  proof (cases "r < 9")
    case True
    then have u: "[r..<9] = r # [r + 1..<9]" by (simp add: upt_conv_Cons)
    show ?thesis
    proof (cases "unit_scan board Row r")
      case None
      with row_unit [of board r] obtain seen' where
        s: "row_cells board r 0 seen_init = Continue seen'" by auto
      from "1.IH" [OF True s] True show ?thesis
        by (subst check_rows.simps) (simp add: u scan_result_Cons None s)
    next
      case (Some up)
      with row_unit [of board r] True show ?thesis
        by (subst check_rows.simps) (auto simp: u scan_result_Cons)
    qed
  next
    case False
    then show ?thesis by (subst check_rows.simps) simp
  qed
qed

lemma check_cols_char:
  "c \<le> 9 \<Longrightarrow> check_cols board c = scan_result () board Column [c..<9]"
proof (induction board c rule: check_cols.induct)
  case (1 board c)
  show ?case
  proof (cases "c < 9")
    case True
    then have u: "[c..<9] = c # [c + 1..<9]" by (simp add: upt_conv_Cons)
    show ?thesis
    proof (cases "unit_scan board Column c")
      case None
      with col_unit [of board c] obtain seen' where
        s: "col_cells board c 0 seen_init = Continue seen'" by auto
      from "1.IH" [OF True s] True show ?thesis
        by (subst check_cols.simps) (simp add: u scan_result_Cons None s)
    next
      case (Some up)
      with col_unit [of board c] True show ?thesis
        by (subst check_cols.simps) (auto simp: u scan_result_Cons)
    qed
  next
    case False
    then show ?thesis by (subst check_cols.simps) simp
  qed
qed

lemma check_block_cols_char:
  "bc \<le> 3 \<Longrightarrow> idx = br * 3 + bc \<Longrightarrow>
     check_block_cols board br bc idx
       = scan_result (br * 3 + 3) board Block [br * 3 + bc..<br * 3 + 3]"
proof (induction board br bc idx rule: check_block_cols.induct)
  case (1 board br bc idx)
  note idx = \<open>idx = br * 3 + bc\<close>
  show ?case
  proof (cases "bc < 3")
    case True
    then have u: "[br * 3 + bc..<br * 3 + 3] = (br * 3 + bc) # [br * 3 + (bc + 1)..<br * 3 + 3]"
      by (simp add: upt_conv_Cons)
    show ?thesis
    proof (cases "unit_scan board Block (br * 3 + bc)")
      case None
      with block_unit [OF True, of board br] obtain seen' where
        s: "block_rows board br bc (br * 3 + bc) (br * 3) seen_init = Continue seen'" by auto
      from "1.IH" [OF True s [folded idx]] True idx show ?thesis
        by (subst check_block_cols.simps) (simp add: u scan_result_Cons None s)
    next
      case (Some up)
      with block_unit [OF True, of board br] True idx show ?thesis
        by (subst check_block_cols.simps) (auto simp: u scan_result_Cons)
    qed
  next
    case False
    with 1 show ?thesis by (subst check_block_cols.simps) simp
  qed
qed

lemma check_blocks_char:
  "br \<le> 3 \<Longrightarrow> idx = br * 3 \<Longrightarrow>
     check_blocks board br idx = scan_result 9 board Block [br * 3..<9]"
proof (induction board br idx rule: check_blocks.induct)
  case (1 board br idx)
  note idx = \<open>idx = br * 3\<close>
  show ?case
  proof (cases "br < 3")
    case True
    then have u: "[br * 3..<9] = [br * 3 + 0..<br * 3 + 3] @ [(br + 1) * 3..<9]"
      using upt_add_eq_append [of "br * 3" "br * 3 + 3" "9 - (br * 3 + 3)"]
      by (simp add: add.commute)
    have inner: "check_block_cols board br 0 idx
        = scan_result (br * 3 + 3) board Block [br * 3 + 0..<br * 3 + 3]"
      by (rule check_block_cols_char) (simp_all add: idx)
    show ?thesis
    proof (cases "check_block_cols board br 0 idx")
      case (Continue idx')
      with inner have sr: "scan_result (br * 3 + 3) board Block [br * 3 + 0..<br * 3 + 3]
          = Continue idx'" by simp
      then have idx': "idx' = br * 3 + 3"
        by (auto simp: scan_result_def split: option.splits)
      have "check_blocks board (br + 1) idx' = scan_result 9 board Block [(br + 1) * 3..<9]"
        using "1.IH" [OF True Continue] True idx' by simp
      then show ?thesis
        using True Continue
        by (subst check_blocks.simps)
          (simp only: u scan_result_append [where b = "br * 3 + 3"] sr outcome.case if_True)
    next
      case (Return_false f)
      with inner have sr: "scan_result (br * 3 + 3) board Block [br * 3 + 0..<br * 3 + 3]
          = Return_false f" by simp
      show ?thesis
        using True Return_false
        by (subst check_blocks.simps)
          (simp only: u scan_result_append [where b = "br * 3 + 3"] sr outcome.case if_True)
    next
      case Out_of_bounds
      with inner show ?thesis by (auto simp: scan_result_def split: option.splits)
    qed
  next
    case False
    with 1 show ?thesis by (subst check_blocks.simps) simp
  qed
qed

lemma first_some_None: "first_some f xs = None \<longleftrightarrow> (\<forall>x\<in>set xs. f x = None)"
  by (induction xs) (auto split: option.splits)

lemma first_some_Some:
  "first_some f xs = Some y \<longleftrightarrow>
     (\<exists>i<length xs. f (xs ! i) = Some y \<and> (\<forall>j<i. f (xs ! j) = None))"
proof (induction xs)
  case Nil
  then show ?case by simp
next
  case (Cons x xs)
  show ?case
  proof (cases "f x")
    case None
    have "(\<exists>i<length (x # xs). f ((x # xs) ! i) = Some y \<and> (\<forall>j<i. f ((x # xs) ! j) = None))
      \<longleftrightarrow> (\<exists>i<length xs. f (xs ! i) = Some y \<and> (\<forall>j<i. f (xs ! j) = None))"
      (is "?L \<longleftrightarrow> ?R")
    proof
      assume ?L
      then obtain i where i: "i < length (x # xs)" "f ((x # xs) ! i) = Some y"
        "\<forall>j<i. f ((x # xs) ! j) = None" by blast
      with None obtain i' where i': "i = Suc i'" by (cases i) auto
      have "\<forall>j<i'. f (xs ! j) = None"
      proof (intro allI impI)
        fix j assume "j < i'"
        then have "Suc j < i" by (simp add: i')
        with i(3) have "f ((x # xs) ! Suc j) = None" by blast
        then show "f (xs ! j) = None" by simp
      qed
      with i i' show ?R by auto
    next
      assume ?R
      then obtain i where i: "i < length xs" "f (xs ! i) = Some y" "\<forall>j<i. f (xs ! j) = None"
        by blast
      have "\<forall>j<Suc i. f ((x # xs) ! j) = None"
      proof (intro allI impI)
        fix j assume "j < Suc i"
        then show "f ((x # xs) ! j) = None" using None i(3) by (cases j) auto
      qed
      with i show ?L by (intro exI [of _ "Suc i"]) simp
    qed
    with None Cons.IH show ?thesis by simp
  next
    case (Some z)
    have "(\<exists>i<length (x # xs). f ((x # xs) ! i) = Some y \<and> (\<forall>j<i. f ((x # xs) ! j) = None))
      \<longleftrightarrow> z = y" (is "?L \<longleftrightarrow> _")
    proof
      assume ?L
      then obtain i where i: "f ((x # xs) ! i) = Some y" "\<forall>j<i. f ((x # xs) ! j) = None"
        by blast
      show "z = y"
      proof (cases i)
        case 0
        with i Some show ?thesis by simp
      next
        case (Suc i')
        with i(2) have "f ((x # xs) ! 0) = None" by blast
        with Some show ?thesis by simp
      qed
    next
      assume "z = y"
      with Some show ?L by (intro exI [of _ 0]) simp
    qed
    with Some show ?thesis by simp
  qed
qed

lemma validate_char:
  "validate_board_internal board reason reason_len =
     Some (case first_violation board of
             None \<Rightarrow> (True, snprintf reason reason_len ''OK'')
           | Some (k, u, p) \<Rightarrow>
               (False, snprintf reason reason_len (format_fault (unit_fault board k u p))))"
  by (simp add: validate_board_internal_def check_rows_char check_cols_char
      check_blocks_char [where br = 0 and idx = 0, simplified]
      scan_result_def first_violation_def scan_first_violation_def unit_scan_def [abs_def]
      split: option.splits)

lemma scan_first_violation_None:
  "scan_first_violation board k = None \<longleftrightarrow> units_ok board k"
  by (auto simp: units_ok_def scan_first_violation_def first_some_None unit_ok_first_bad)

lemma sudoku_ok_first_violation: "sudoku_ok board \<longleftrightarrow> first_violation board = None"
  by (simp add: sudoku_ok_def first_violation_def scan_first_violation_None [symmetric]
      split: option.splits)

lemma unit_first_violation_Some:
  "unit_first_violation vs = Some p \<longleftrightarrow>
     p < length vs \<and> violation vs p \<and> (\<forall>q<p. \<not> violation vs q)"
  by (auto simp: unit_first_violation_def find_Some_iff)

lemma scan_first_violation_Some:
  "scan_first_violation board k = Some (u, p) \<longleftrightarrow>
     u < 9 \<and> unit_first_violation (unit_vals board k u) = Some p
       \<and> (\<forall>u'<u. unit_ok (unit_vals board k u'))"
  by (auto simp: scan_first_violation_def first_some_Some unit_ok_first_bad)

lemma first_violation_Row:
  "first_violation board = Some (Row, u, p) \<longleftrightarrow> scan_first_violation board Row = Some (u, p)"
  by (auto simp: first_violation_def split: option.splits)

lemma first_violation_Column:
  "first_violation board = Some (Column, u, p) \<longleftrightarrow>
     scan_first_violation board Row = None \<and> scan_first_violation board Column = Some (u, p)"
  by (auto simp: first_violation_def split: option.splits)

lemma first_violation_Block:
  "first_violation board = Some (Block, u, p) \<longleftrightarrow>
     scan_first_violation board Row = None \<and> scan_first_violation board Column = None
       \<and> scan_first_violation board Block = Some (u, p)"
  by (auto simp: first_violation_def split: option.splits)

lemma first_violation_bounds:
  "first_violation board = Some (k, u, p) \<Longrightarrow> u < 9 \<and> p < 9"
  by (cases k)
    (auto simp: first_violation_Row first_violation_Column first_violation_Block
      scan_first_violation_Some unit_first_violation_Some)

lemma unit_cells_bounds:
  assumes "u < 9" "rc \<in> set (unit_cells k u)"
  shows "fst rc < 9 \<and> snd rc < 9"
proof -
  have "u div 3 * 3 + 3 \<le> 9" "u mod 3 * 3 + 3 \<le> 9" using assms(1) by auto
  with assms show ?thesis by (cases k) auto
qed

lemma rows_ok_range:
  assumes "scan_first_violation board Row = None" "r < 9" "c < 9"
  shows "0 < sint (board r c) \<and> sint (board r c) \<le> 9"
proof -
  from assms have "unit_ok (unit_vals board Row r)"
    by (simp add: scan_first_violation_None units_ok_def)
  then have "\<forall>v\<in>set (unit_vals board Row r). 0 < v \<and> v \<le> 9"
    by (simp add: unit_ok_iff)
  moreover have "sint (board r c) \<in> set (unit_vals board Row r)"
    using assms(3) by (auto simp: unit_vals_def image_iff intro!: bexI [of _ c])
  ultimately show ?thesis by blast
qed

lemma unit_vals_nth:
  "p < 9 \<Longrightarrow> unit_vals board k u ! p = cell_val board (unit_cells k u ! p)"
  by (simp add: unit_vals_def)

lemma rows_ok_unit_range:
  assumes "scan_first_violation board Row = None" "u < 9" "p < 9"
  shows "0 < unit_vals board k u ! p \<and> unit_vals board k u ! p \<le> 9"
proof -
  have "unit_cells k u ! p \<in> set (unit_cells k u)" using assms(3) by simp
  from unit_cells_bounds [OF assms(2) this] rows_ok_range [OF assms(1)]
  show ?thesis by (simp add: unit_vals_nth [OF assms(3)] cell_val_def)
qed

lemma nth_unit_cells_Row: "p < 9 \<Longrightarrow> unit_cells Row u ! p = (u, p)"
  by simp

lemma nth_unit_cells_Column: "p < 9 \<Longrightarrow> unit_cells Column u ! p = (p, u)"
  by simp

lemma format_unit_fault:
  assumes "u < 9" "p < 9"
    and "k \<noteq> Row \<Longrightarrow> 0 < unit_vals board k u ! p \<and> unit_vals board k u ! p \<le> 9"
  shows "format_fault (unit_fault board k u p) = expected_reason board k u p"
proof (cases k)
  case Row
  then show ?thesis
    using assms(2)
    by (simp add: expected_reason_def fault_at_def Let_def unit_vals_def add.commute)
next
  case Column
  then show ?thesis
    using assms
    by (simp add: expected_reason_def fault_at_def Let_def unit_vals_def add.commute
        del: unit_cells.simps)
next
  case Block
  then show ?thesis
    using assms
    by (simp add: expected_reason_def fault_at_def Let_def unit_vals_def add.commute
        mult.commute del: unit_cells.simps)
qed

lemma digits_length: "0 < k \<Longrightarrow> n < 10 ^ k \<Longrightarrow> length (digits n) \<le> k"
proof (induction k arbitrary: n)
  case 0
  then show ?case by simp
next
  case (Suc k)
  show ?case
  proof (cases "n < 10")
    case True
    then show ?thesis by (subst digits.simps) simp
  next
    case False
    then have "0 < k" using Suc.prems by (cases k) auto
    moreover have "n div 10 < 10 ^ k" using Suc.prems by (simp add: less_mult_imp_div_less)
    ultimately have "length (digits (n div 10)) \<le> k" by (rule Suc.IH)
    with False show ?thesis by (subst digits.simps) simp
  qed
qed

lemma show_int_sint_length: "length (show_int (sint (w :: 32 word))) \<le> 11"
proof -
  have lo: "- (2 ^ 31) \<le> sint w" using sint_ge [of w] by simp
  have hi: "sint w < 2 ^ 31" using sint_lt [of w] by simp
  have "nat \<bar>sint w\<bar> < 10 ^ 10" using lo hi by simp
  then have "length (digits (nat \<bar>sint w\<bar>)) \<le> 10" by (intro digits_length) simp_all
  then show ?thesis by (auto simp: show_int_def abs_if split: if_splits)
qed

lemma show_int_small: "0 \<le> i \<Longrightarrow> i < 10 \<Longrightarrow> length (show_int i) = 1"
  by (simp add: show_int_def digits.simps)

lemma snprintf_fits: "length s < reason_len \<Longrightarrow> snprintf reason reason_len s = s"
  by (simp add: snprintf_def)

lemma unit_vals_sint:
  "p < 9 \<Longrightarrow> \<exists>w :: 32 word. unit_vals board k u ! p = sint w"
  by (auto simp: unit_vals_nth cell_val_def)

lemma expected_reason_length:
  assumes "u < 9" "p < 9"
  shows "length (expected_reason board k u p) < 128"
proof -
  obtain w :: "32 word" where w: "unit_vals board k u ! p = sint w"
    using unit_vals_sint [OF assms(2)] by blast
  have "u div 3 < 3" "u mod 3 < 3" using assms by auto
  then have s: "length (show_int (int u + 1)) = 1" "length (show_int (int p + 1)) = 1"
    "length (show_int (3 * int (u div 3) + 1)) = 1"
    "length (show_int (3 * int (u mod 3) + 1)) = 1"
    using assms by (simp_all add: show_int_small)
  have "length (show_int (unit_vals board k u ! p)) \<le> 11"
    using show_int_sint_length [of w] by (simp add: w)
  then show ?thesis
    by (cases k) (auto simp: expected_reason_def Let_def s)
qed

lemma check_rows_Continue:
  "check_rows board 0 = Continue () \<longleftrightarrow> scan_first_violation board Row = None"
  by (auto simp: check_rows_char scan_result_def scan_first_violation_def
      unit_scan_def [abs_def] split: option.splits)

lemma unit_fault_in_range:
  assumes "p < 9" "0 < unit_vals board k u ! p \<and> unit_vals board k u ! p \<le> 9"
  shows "unit_fault board k u p =
     (case k of Row \<Rightarrow> Row_duplicate (unit_vals board k u ! p) u
      | Column \<Rightarrow> Col_duplicate (unit_vals board k u ! p) u
      | Block \<Rightarrow> Block_duplicate (unit_vals board k u ! p) u (u div 3) (u mod 3))"
  using assms
  by (cases k) (simp_all add: fault_at_def Let_def unit_vals_def del: unit_cells.simps)

lemma scan_result_Return_false:
  assumes "scan_result a board k [0..<9] = Return_false f"
  shows "\<exists>u p. scan_first_violation board k = Some (u, p) \<and> f = unit_fault board k u p"
  using assms
  by (auto simp: scan_result_def scan_first_violation_def unit_scan_def [abs_def]
      split: option.splits)

lemma validate_first_violation:
  assumes fv: "first_violation board = Some (k, u, p)"
  shows "validate_board_internal board reason reason_len
       = Some (False, snprintf reason reason_len (expected_reason board k u p))"
    and "128 \<le> reason_len \<Longrightarrow>
       validate_board_internal board reason reason_len
         = Some (False, expected_reason board k u p)"
proof -
  from first_violation_bounds [OF fv] have b: "u < 9" "p < 9" by auto
  have rng: "0 < unit_vals board k u ! p \<and> unit_vals board k u ! p \<le> 9" if "k \<noteq> Row"
  proof -
    from that fv have "scan_first_violation board Row = None"
      by (cases k) (auto simp: first_violation_Column first_violation_Block)
    from rows_ok_unit_range [OF this b] show ?thesis .
  qed
  show v: "validate_board_internal board reason reason_len
      = Some (False, snprintf reason reason_len (expected_reason board k u p))"
    by (simp add: validate_char fv format_unit_fault [OF b rng])
  show "validate_board_internal board reason reason_len
         = Some (False, expected_reason board k u p)" if "128 \<le> reason_len"
    using expected_reason_length [OF b, of board k] that
    by (simp add: v snprintf_fits)
qed

lemma violation_count:
  assumes "p < length vs" "violation vs p" "0 < vs ! p" "vs ! p \<le> 9"
  shows "2 \<le> count_list vs (vs ! p)"
proof -
  from assms have "vs ! p \<in> set (take p vs)" by (auto simp: violation_def)
  then have "count_list (take p vs) (vs ! p) \<noteq> 0" by (simp add: count_list_0_iff)
  moreover have "vs = take p vs @ vs ! p # drop (Suc p) vs"
    using assms(1) by (rule id_take_nth_drop)
  then have "count_list vs (vs ! p)
      = count_list (take p vs) (vs ! p) + count_list (vs ! p # drop (Suc p) vs) (vs ! p)"
    using count_list_append [of "take p vs" "vs ! p # drop (Suc p) vs" "vs ! p"] by simp
  ultimately show ?thesis by simp
qed

lemma swap_in_row_commute: "swap_in_row board r c1 c2 = swap_in_row board r c2 c1"
  by (auto simp: swap_in_row_def fun_eq_iff)

lemma swap_in_row_other_row [simp]: "r' \<noteq> r \<Longrightarrow> swap_in_row board r c1 c2 r' c = board r' c"
  by (simp add: swap_in_row_def)

lemma swap_in_row_same_row:
  "swap_in_row board r c1 c2 r c =
     (if c = c2 then board r c1 else if c = c1 then board r c2 else board r c)"
  by (simp add: swap_in_row_def)

lemma unit_vals_Row_nth: "c < 9 \<Longrightarrow> unit_vals board Row r ! c = sint (board r c)"
  by (simp add: unit_vals_def)

lemma unit_vals_Column_nth: "r < 9 \<Longrightarrow> unit_vals board Column c ! r = sint (board r c)"
  by (simp add: unit_vals_def)

lemma swap_row_vals_other:
  "r' \<noteq> r \<Longrightarrow> unit_vals (swap_in_row board r c1 c2) Row r' = unit_vals board Row r'"
  by (simp add: unit_vals_def)

lemma swap_row_vals_same:
  assumes "c1 < 9" "c2 < 9"
  shows "unit_vals (swap_in_row board r c1 c2) Row r
     = (unit_vals board Row r)[c1 := unit_vals board Row r ! c2,
          c2 := unit_vals board Row r ! c1]"
  using assms
  by (intro nth_equalityI)
    (auto simp: unit_vals_Row_nth swap_in_row_same_row nth_list_update)

lemma swap_rows_ok:
  assumes "units_ok board Row" "r < 9" "c1 < 9" "c2 < 9"
  shows "units_ok (swap_in_row board r c1 c2) Row"
  unfolding units_ok_def
proof
  fix r' assume "r' \<in> {..<9::nat}"
  then have ok: "unit_ok (unit_vals board Row r')" using assms(1) by (simp add: units_ok_def)
  show "unit_ok (unit_vals (swap_in_row board r c1 c2) Row r')"
  proof (cases "r' = r")
    case True
    from ok show ?thesis
      using assms
      by (simp add: True swap_row_vals_same unit_ok_iff distinct_swap)
  next
    case False
    with ok show ?thesis by (simp add: swap_row_vals_other)
  qed
qed

lemma swap_col_vals_other:
  "c \<noteq> c1 \<Longrightarrow> c \<noteq> c2 \<Longrightarrow>
     unit_vals (swap_in_row board r c1 c2) Column c = unit_vals board Column c"
  by (auto simp: unit_vals_def swap_in_row_def)

lemma swap_col_vals_first:
  assumes "r < 9" "c1 \<noteq> c2"
  shows "unit_vals (swap_in_row board r c1 c2) Column c1
     = (unit_vals board Column c1)[r := sint (board r c2)]"
  using assms
  by (intro nth_equalityI)
    (auto simp: unit_vals_Column_nth swap_in_row_def nth_list_update)

lemma replaced_value_first_violation:
  assumes rng: "\<forall>v\<in>set vs. 0 < v \<and> v \<le> 9" and d: "distinct vs"
    and r: "r < length vs" and x: "x \<in> set vs" and ne: "x \<noteq> vs ! r"
  shows "\<exists>j<length vs. unit_first_violation (vs[r := x]) = Some j \<and> vs[r := x] ! j = x"
proof -
  let ?ws = "vs[r := x]"
  from x obtain r' where r': "r' < length vs" "vs ! r' = x" by (auto simp: in_set_conv_nth)
  with ne have rr': "r' \<noteq> r" by auto
  define i where "i = min r r'"
  define j where "j = max r r'"
  have ij: "i < j" "j < length vs" using rr' r r' by (auto simp: i_def j_def)
  have wr: "?ws ! r = x" "?ws ! r' = x" using r r' rr' by simp_all
  then have wi: "?ws ! i = x" and wj: "?ws ! j = x" by (auto simp: i_def j_def min_def max_def)
  have wrng: "0 < ?ws ! q \<and> ?ws ! q \<le> 9" if "q < length vs" for q
    using that rng x by (cases "q = r") (auto simp: nth_list_update)
  have inj: "t = q" if "t < length vs" "q < length vs" "?ws ! t = ?ws ! q" "t \<noteq> j" "q \<noteq> j"
    for t q
  proof (rule ccontr)
    assume tq: "t \<noteq> q"
    have eq: "vs ! a = vs ! b \<longleftrightarrow> a = b" if "a < length vs" "b < length vs" for a b
      using nth_eq_iff_index_eq [OF d that] .
    consider "t = r" | "q = r" | "t \<noteq> r" "q \<noteq> r" by blast
    then show False
    proof cases
      case 1
      with that tq r have "vs ! q = vs ! r'" by (simp add: r')
      then have "q = r'" using eq [OF that(2) r'(1)] by simp
      with 1 that(4,5) show False by (auto simp: j_def max_def split: if_splits)
    next
      case 2
      with that tq r have "vs ! t = vs ! r'" by (simp add: r')
      then have "t = r'" using eq [OF that(1) r'(1)] by simp
      with 2 that(4,5) show False by (auto simp: j_def max_def split: if_splits)
    next
      case 3
      with that have "vs ! t = vs ! q" by simp
      with eq [OF that(1,2)] tq show False by simp
    qed
  qed
  have "violation ?ws j"
  proof -
    have "?ws ! i \<in> set (take j ?ws)"
      using ij by (auto simp: in_set_conv_nth intro!: exI [of _ i])
    then show ?thesis by (simp add: violation_def wi wj)
  qed
  moreover have "\<not> violation ?ws q" if "q < j" for q
  proof
    assume "violation ?ws q"
    with wrng [of q] that ij have "?ws ! q \<in> set (take q ?ws)"
      by (auto simp: violation_def)
    then obtain t where t: "t < q" "?ws ! t = ?ws ! q"
      using that ij by (auto simp: in_set_conv_nth)
    from inj [of t q] t that ij show False by auto
  qed
  ultimately have "unit_first_violation ?ws = Some j"
    using ij by (simp add: unit_first_violation_Some)
  with wj ij show ?thesis by blast
qed

lemma row_swap_first_violation:
  assumes ok: "sudoku_ok board" and r: "r < 9" and c: "c1 < c2" "c2 < 9"
  shows "\<exists>j<9. first_violation (swap_in_row board r c1 c2) = Some (Column, c1, j) \<and>
     unit_vals (swap_in_row board r c1 c2) Column c1 ! j = sint (board r c2)"
proof -
  let ?b = "swap_in_row board r c1 c2"
  let ?vs = "unit_vals board Column c1"
  let ?x = "sint (board r c2)"
  from ok have rows: "units_ok board Row" and cols: "units_ok board Column"
    by (simp_all add: sudoku_ok_def)
  from c have c1: "c1 < 9" "c1 \<noteq> c2" by auto
  have rows': "scan_first_violation ?b Row = None"
    using swap_rows_ok [OF rows r c1(1) c(2)] by (simp add: scan_first_violation_None)
  from cols c1 have colok: "unit_ok ?vs" by (simp add: units_ok_def)
  then have rng: "\<forall>v\<in>set ?vs. 0 < v \<and> v \<le> 9" and d: "distinct ?vs"
    by (simp_all add: unit_ok_iff)
  from rows have r0: "scan_first_violation board Row = None"
    by (simp add: scan_first_violation_None)
  have xr: "0 < ?x \<and> ?x \<le> 9" by (rule rows_ok_range [OF r0 r c(2)])
  with colok have "count_list ?vs ?x = 1" by (simp add: unit_ok_def)
  then have xin: "?x \<in> set ?vs" using count_list_0_iff [of ?vs ?x] by auto
  from rows r have "unit_ok (unit_vals board Row r)" by (simp add: units_ok_def)
  then have "distinct (unit_vals board Row r)" by (simp add: unit_ok_iff)
  from nth_eq_iff_index_eq [OF this, of c1 c2] c1 c(2)
  have "sint (board r c1) \<noteq> sint (board r c2)" by (simp add: unit_vals_Row_nth)
  then have ne: "?x \<noteq> ?vs ! r" using r by (simp add: unit_vals_Column_nth)
  from replaced_value_first_violation [OF rng d _ xin ne] r obtain j where
    j: "j < 9" "unit_first_violation (?vs[r := ?x]) = Some j" "?vs[r := ?x] ! j = ?x"
    by auto
  have vs': "unit_vals ?b Column c1 = ?vs[r := ?x]" by (rule swap_col_vals_first [OF r c1(2)])
  have before: "\<forall>u'<c1. unit_ok (unit_vals ?b Column u')"
  proof (intro allI impI)
    fix u' assume "u' < c1"
    with c have "u' \<noteq> c1" "u' \<noteq> c2" "u' < 9" by auto
    with cols show "unit_ok (unit_vals ?b Column u')"
      by (simp add: swap_col_vals_other units_ok_def)
  qed
  have "scan_first_violation ?b Column = Some (c1, j)"
    using c1 j before by (simp add: scan_first_violation_Some vs')
  with rows' have "first_violation ?b = Some (Column, c1, j)"
    by (simp add: first_violation_Column)
  with j vs' show ?thesis by auto
qed

lemma validate_returns:
  "\<exists>ok r. validate_board_internal board reason reason_len = Some (ok, r)"
  by (cases "first_violation board") (auto simp: validate_char)

section \<open>The claims about the validator\<close>

text \<open>
  Claim C1. For every board, \<^verbatim>\<open>validate_board_internal\<close> returns true exactly when each of
  the 9 rows, the 9 columns and the nine 3x3 blocks holds the values 1 to 9 each exactly once;
  the reason it then writes is \<^verbatim>\<open>OK\<close>, whole as soon as the buffer has room for its two
  characters and the terminating zero.
\<close>

theorem validate_true_iff_sudoku_ok:
  "(\<exists>s. validate_board_internal board reason reason_len = Some (sudoku_ok board, s)) \<and>
   (3 \<le> reason_len \<longrightarrow>
      (validate_board_internal board reason reason_len = Some (True, ''OK''))
        = sudoku_ok board)"
  by (auto simp: validate_char sudoku_ok_first_violation snprintf_def split: option.splits)

theorem validate_true_iff_sudoku_ok_witness:
  "sudoku_ok solved \<and> validate_board_internal solved [] 128 = Some (True, ''OK'')"
proof -
  have "sudoku_ok solved" by code_simp
  with validate_true_iff_sudoku_ok [of solved "[]" 128] show ?thesis by simp
qed

text \<open>
  Claim C2. For every invalid board the validator returns false, and the reason describes the
  first violation in the order of the specification: all rows in index order, cells from left
  to right; then all columns, cells from top to bottom; then all blocks in row-major order,
  cells in row-major order. The reason names the offending value and the 1-based number of the
  row, column or block. With the 128 bytes that \<^verbatim>\<open>worker_loop\<close> provides the reason is
  written whole.
\<close>

theorem first_violation_reported:
  assumes "\<not> sudoku_ok board"
  shows "\<exists>k u p. first_violation board = Some (k, u, p) \<and> u < 9 \<and> p < 9 \<and>
     validate_board_internal board reason reason_len
       = Some (False, snprintf reason reason_len (expected_reason board k u p)) \<and>
     (128 \<le> reason_len \<longrightarrow>
        validate_board_internal board reason reason_len
          = Some (False, expected_reason board k u p))"
proof -
  from assms obtain k u p where fv: "first_violation board = Some (k, u, p)"
    by (auto simp: sudoku_ok_first_violation)
  from first_violation_bounds [OF fv] validate_first_violation [OF fv] fv
  show ?thesis by blast
qed

theorem first_violation_reported_witness:
  "\<not> sudoku_ok with_zero \<and> first_violation with_zero = Some (Row, 0, 0) \<and>
   validate_board_internal with_zero [] 128 = Some (False, ''Invalid number 0 at row 1 col 1'')"
proof -
  have h: "\<not> sudoku_ok with_zero" by code_simp
  have fv: "first_violation with_zero = Some (Row, 0, 0)" by code_simp
  have e: "expected_reason with_zero Row 0 0 = ''Invalid number 0 at row 1 col 1''"
    by code_simp
  from first_violation_reported [OF h, of "[]" 128] fv e h show ?thesis by auto
qed

text \<open>
  Claim C3. The validator never reads \<^verbatim>\<open>seen\<close> outside its bounds, so a value outside 1..9
  is never the index of a duplicate check. A board with such a value in some cell, a zero in
  particular, is reported invalid. When the first violation of the board is a value outside
  1..9, it is found by the row scan, and the reason is an invalid number at the 1-based row
  and column of the cell, not a duplicate.
\<close>

theorem out_of_range_is_invalid_number:
  "validate_board_internal board reason reason_len \<noteq> None \<and>
   (r < 9 \<and> c < 9 \<and> (sint (board r c) \<le> 0 \<or> 9 < sint (board r c)) \<longrightarrow>
      (\<exists>s. validate_board_internal board reason reason_len = Some (False, s))) \<and>
   (r < 9 \<and> c < 9 \<and> board r c = 0 \<longrightarrow>
      (\<exists>s. validate_board_internal board reason reason_len = Some (False, s))) \<and>
   (first_violation board = Some (k, u, p) \<and>
      (unit_vals board k u ! p \<le> 0 \<or> 9 < unit_vals board k u ! p) \<longrightarrow>
      k = Row \<and>
      check_rows board 0 = Return_false (Row_invalid (sint (board u p)) u p) \<and>
      validate_board_internal board reason reason_len
        = Some (False, snprintf reason reason_len
            (''Invalid number '' @ show_int (sint (board u p)) @ '' at row ''
               @ show_int (int u + 1) @ '' col '' @ show_int (int p + 1))))"
proof (intro conjI impI)
  show "validate_board_internal board reason reason_len \<noteq> None"
    by (simp add: validate_char)
next
  assume a: "r < 9 \<and> c < 9 \<and> (sint (board r c) \<le> 0 \<or> 9 < sint (board r c))"
  have "\<not> sudoku_ok board"
  proof
    assume "sudoku_ok board"
    then have "scan_first_violation board Row = None"
      by (simp add: sudoku_ok_def scan_first_violation_None)
    from rows_ok_range [OF this, of r c] a show False by auto
  qed
  then show "\<exists>s. validate_board_internal board reason reason_len = Some (False, s)"
    by (auto simp: validate_char sudoku_ok_first_violation split: option.splits)
next
  assume a: "r < 9 \<and> c < 9 \<and> board r c = 0"
  have "\<not> sudoku_ok board"
  proof
    assume "sudoku_ok board"
    then have "scan_first_violation board Row = None"
      by (simp add: sudoku_ok_def scan_first_violation_None)
    from rows_ok_range [OF this, of r c] a show False by auto
  qed
  then show "\<exists>s. validate_board_internal board reason reason_len = Some (False, s)"
    by (auto simp: validate_char sudoku_ok_first_violation split: option.splits)
next
  assume a: "first_violation board = Some (k, u, p) \<and>
      (unit_vals board k u ! p \<le> 0 \<or> 9 < unit_vals board k u ! p)"
  then have fv: "first_violation board = Some (k, u, p)" by simp
  from first_violation_bounds [OF fv] have b: "u < 9" "p < 9" by auto
  show k: "k = Row"
  proof (rule ccontr)
    assume "k \<noteq> Row"
    with fv have "scan_first_violation board Row = None"
      by (cases k) (auto simp: first_violation_Column first_violation_Block)
    from rows_ok_unit_range [OF this b, of k] a show False by auto
  qed
  have val: "unit_vals board Row u ! p = sint (board u p)"
    using b by (simp add: unit_vals_def)
  from fv k have "scan_first_violation board Row = Some (u, p)"
    by (simp add: first_violation_Row)
  then have "check_rows board 0 = Return_false (unit_fault board Row u p)"
    by (simp add: check_rows_char scan_result_def scan_first_violation_def
        unit_scan_def [abs_def])
  then show "check_rows board 0 = Return_false (Row_invalid (sint (board u p)) u p)"
    using a b k val by (auto simp: fault_at_def)
  show "validate_board_internal board reason reason_len
      = Some (False, snprintf reason reason_len
          (''Invalid number '' @ show_int (sint (board u p)) @ '' at row ''
             @ show_int (int u + 1) @ '' col '' @ show_int (int p + 1)))"
    using a b k val fv by (auto simp: validate_char fault_at_def add.commute)
qed

theorem out_of_range_is_invalid_number_witness:
  "(0::nat) < 9 \<and> with_zero 0 0 = 0 \<and> sint (with_zero 0 0) \<le> 0 \<and>
   first_violation with_zero = Some (Row, 0, 0) \<and> unit_vals with_zero Row 0 ! 0 \<le> 0 \<and>
   check_rows with_zero 0 = Return_false (Row_invalid 0 0 0) \<and>
   validate_board_internal with_zero [] 128 = Some (False, ''Invalid number 0 at row 1 col 1'')"
proof -
  have z: "with_zero 0 0 = 0" by (simp add: with_zero_def)
  have fv: "first_violation with_zero = Some (Row, 0, 0)" by code_simp
  have v: "unit_vals with_zero Row 0 ! 0 \<le> 0" by code_simp
  have s: "snprintf [] 128 (''Invalid number '' @ show_int 0 @ '' at row ''
      @ show_int (int 0 + 1) @ '' col '' @ show_int (int 0 + 1))
      = ''Invalid number 0 at row 1 col 1''" by code_simp
  from out_of_range_is_invalid_number [of with_zero "[]" 128 0 0 Row 0 0] z fv v s
  show ?thesis by simp
qed

text \<open>
  Claim C4, as the code has it. Exchanging two distinct cells of one row of a right board
  leaves that row a permutation of 1..9: no row holds a duplicate, and the duplicate arises in
  the two columns concerned. The validator returns false, and the reason names the value moved
  into the left one of the two columns and the 1-based number of that column.
\<close>

theorem row_swap_reported_in_column:
  assumes "sudoku_ok board" "r < 9" "c1 < 9" "c2 < 9" "c1 \<noteq> c2"
  shows "validate_board_internal (swap_in_row board r c1 c2) reason reason_len
       = Some (False, snprintf reason reason_len
           (''Duplicate '' @ show_int (sint (board r (max c1 c2))) @ '' in column ''
              @ show_int (int (min c1 c2) + 1))) \<and>
     (128 \<le> reason_len \<longrightarrow>
        validate_board_internal (swap_in_row board r c1 c2) reason reason_len
          = Some (False,
              ''Duplicate '' @ show_int (sint (board r (max c1 c2))) @ '' in column ''
                @ show_int (int (min c1 c2) + 1)))"
proof -
  define a where "a = min c1 c2"
  define b where "b = max c1 c2"
  have ab: "a < b" "b < 9" using assms by (auto simp: a_def b_def)
  have sw: "swap_in_row board r c1 c2 = swap_in_row board r a b"
    using swap_in_row_commute [of board r c1 c2]
    by (auto simp: a_def b_def min_def max_def)
  from row_swap_first_violation [OF assms(1,2) ab] obtain j where
    j: "j < 9" "first_violation (swap_in_row board r a b) = Some (Column, a, j)"
      "unit_vals (swap_in_row board r a b) Column a ! j = sint (board r b)"
    by blast
  have e: "expected_reason (swap_in_row board r a b) Column a j
      = ''Duplicate '' @ show_int (sint (board r b)) @ '' in column '' @ show_int (int a + 1)"
    by (simp add: expected_reason_def j(3))
  from validate_first_violation [OF j(2), where reason = reason and reason_len = reason_len]
  show ?thesis
    unfolding e sw a_def [symmetric] b_def [symmetric] by simp
qed

theorem row_swap_reported_in_column_witness:
  "sudoku_ok solved \<and>
   validate_board_internal (swap_in_row solved 4 0 1) [] 128
     = Some (False, ''Duplicate 2 in column 1'')"
proof -
  have h: "sudoku_ok solved" by code_simp
  have v: "sint (solved 4 (max 0 1)) = 2" by code_simp
  have s: "''Duplicate '' @ show_int 2 @ '' in column '' @ show_int (int (min 0 1) + 1)
      = ''Duplicate 2 in column 1''" by code_simp
  have "(128::nat) \<le> 128 \<longrightarrow>
      validate_board_internal (swap_in_row solved 4 0 1) [] 128
        = Some (False,
            ''Duplicate '' @ show_int (sint (solved 4 (max 0 1))) @ '' in column ''
              @ show_int (int (min 0 1) + 1))"
    by (rule conjunct2 [OF row_swap_reported_in_column [OF h]]) simp_all
  then have "validate_board_internal (swap_in_row solved 4 0 1) [] 128
        = Some (False,
            ''Duplicate '' @ show_int (sint (solved 4 (max 0 1))) @ '' in column ''
              @ show_int (int (min 0 1) + 1))"
    by (rule mp) simp
  then show ?thesis using h by (simp only: v s)
qed

text \<open>
  The solved grid with the first two cells of its fifth row exchanged: the reason names
  column 1, and no row.
\<close>

theorem row_swap_counterexample:
  "sudoku_ok solved \<and>
   validate_board_internal (swap_in_row solved 4 0 1) [] 128
     = Some (False, ''Duplicate 2 in column 1'') \<and>
   validate_board_internal (swap_in_row solved 4 0 1) [] 128
     \<noteq> Some (False, ''Duplicate 2 in row 5'') \<and>
   validate_board_internal (swap_in_row solved 4 0 1) [] 128
     \<noteq> Some (False, ''Duplicate 4 in row 5'')"
  by code_simp

text \<open>
  Claim C5. For every board whose rows and columns all hold 1..9 exactly once while some block
  holds a duplicate, the validator returns false and the reason names the 1-based number, in
  row-major order, of the first block with a duplicate, and a value that occurs twice in it.
\<close>

theorem block_duplicate_reported:
  assumes rows: "units_ok board Row"
    and cols: "units_ok board Column"
    and blk: "\<exists>k\<in>{..<9}. \<not> distinct (unit_vals board Block k)"
  shows "\<exists>k v. k < 9 \<and> \<not> distinct (unit_vals board Block k) \<and>
     (\<forall>j<k. distinct (unit_vals board Block j)) \<and>
     2 \<le> count_list (unit_vals board Block k) v \<and>
     validate_board_internal board reason reason_len
       = Some (False, snprintf reason reason_len
           (''Duplicate '' @ show_int v @ '' in 3x3 block '' @ show_int (int k + 1)
              @ '' (top-left row '' @ show_int (3 * int (k div 3) + 1)
              @ '' col '' @ show_int (3 * int (k mod 3) + 1) @ '')'')) \<and>
     (128 \<le> reason_len \<longrightarrow>
        validate_board_internal board reason reason_len
          = Some (False,
              ''Duplicate '' @ show_int v @ '' in 3x3 block '' @ show_int (int k + 1)
                @ '' (top-left row '' @ show_int (3 * int (k div 3) + 1)
                @ '' col '' @ show_int (3 * int (k mod 3) + 1) @ '')''))"
proof -
  from rows have r: "scan_first_violation board Row = None"
    by (simp add: scan_first_violation_None)
  from cols have c: "scan_first_violation board Column = None"
    by (simp add: scan_first_violation_None)
  from blk have "scan_first_violation board Block \<noteq> None"
    by (auto simp: scan_first_violation_None units_ok_def unit_ok_iff)
  then obtain u p where up: "scan_first_violation board Block = Some (u, p)" by auto
  then have fv: "first_violation board = Some (Block, u, p)"
    using r c by (simp add: first_violation_Block)
  from up have b: "u < 9" "p < 9"
    and ufv: "unit_first_violation (unit_vals board Block u) = Some p"
    and before: "\<forall>j<u. unit_ok (unit_vals board Block j)"
    by (auto simp: scan_first_violation_Some unit_first_violation_Some)
  let ?vs = "unit_vals board Block u"
  let ?v = "?vs ! p"
  have rng: "0 < ?v \<and> ?v \<le> 9" by (rule rows_ok_unit_range [OF r b])
  from ufv have viol: "violation ?vs p" by (simp add: unit_first_violation_Some)
  have "\<not> unit_ok ?vs" using ufv by (simp add: unit_ok_first_bad)
  moreover have "\<forall>v\<in>set ?vs. 0 < v \<and> v \<le> 9"
  proof
    fix v assume "v \<in> set ?vs"
    then obtain q where "q < 9" "v = ?vs ! q" by (auto simp: in_set_conv_nth)
    with rows_ok_unit_range [OF r b(1), of q Block] show "0 < v \<and> v \<le> 9" by simp
  qed
  ultimately have nd: "\<not> distinct ?vs" by (simp add: unit_ok_iff)
  have d: "\<forall>j<u. distinct (unit_vals board Block j)"
    using before by (simp add: unit_ok_iff)
  have cnt: "2 \<le> count_list ?vs ?v"
    using viol rng b by (intro violation_count) simp_all
  have e: "expected_reason board Block u p
      = ''Duplicate '' @ show_int ?v @ '' in 3x3 block '' @ show_int (int u + 1)
          @ '' (top-left row '' @ show_int (3 * int (u div 3) + 1)
          @ '' col '' @ show_int (3 * int (u mod 3) + 1) @ '')''"
    by (simp add: expected_reason_def Let_def)
  show ?thesis
    using validate_first_violation [OF fv, where reason = reason and reason_len = reason_len] b nd d cnt
    unfolding e by (intro exI [of _ u] exI [of _ ?v]) simp
qed

theorem block_duplicate_reported_witness:
  "units_ok latin Row \<and> units_ok latin Column \<and>
   (\<exists>k\<in>{..<9}. \<not> distinct (unit_vals latin Block k)) \<and>
   (\<exists>k v. k < 9 \<and> 2 \<le> count_list (unit_vals latin Block k) v \<and>
      validate_board_internal latin [] 128
        = Some (False,
            ''Duplicate '' @ show_int v @ '' in 3x3 block '' @ show_int (int k + 1)
              @ '' (top-left row '' @ show_int (3 * int (k div 3) + 1)
              @ '' col '' @ show_int (3 * int (k mod 3) + 1) @ '')''))"
proof -
  have r: "units_ok latin Row" by code_simp
  have c: "units_ok latin Column" by code_simp
  have "\<not> distinct (unit_vals latin Block 0)" by code_simp
  then have b: "\<exists>k\<in>{..<9}. \<not> distinct (unit_vals latin Block k)" by auto
  from block_duplicate_reported [OF r c b, of "[]" 128] obtain k v where
    "k < 9" "2 \<le> count_list (unit_vals latin Block k) v"
    "validate_board_internal latin [] 128
        = Some (False,
            ''Duplicate '' @ show_int v @ '' in 3x3 block '' @ show_int (int k + 1)
              @ '' (top-left row '' @ show_int (3 * int (k div 3) + 1)
              @ '' col '' @ show_int (3 * int (k mod 3) + 1) @ '')'')"
    by auto
  with r c b show ?thesis by blast
qed

text \<open>
  Claim C10. When the row scan runs to its end, every one of the 81 cells holds a value in
  1..9; the column scan and the block scan then never return through their
  \<^verbatim>\<open>Invalid number\<close> branch: a fault they report is a duplicate.
\<close>

theorem later_scans_report_only_duplicates:
  assumes "check_rows board 0 = Continue ()"
  shows "(\<forall>r<9. \<forall>c<9. 0 < sint (board r c) \<and> sint (board r c) \<le> 9) \<and>
     (\<forall>v r c. check_cols board 0 \<noteq> Return_false (Col_invalid v r c)) \<and>
     (\<forall>v idx r c. check_blocks board 0 0 \<noteq> Return_false (Block_invalid v idx r c)) \<and>
     (\<forall>f. check_cols board 0 = Return_false f \<longrightarrow> (\<exists>v c. f = Col_duplicate v c)) \<and>
     (\<forall>f. check_blocks board 0 0 = Return_false f \<longrightarrow>
        (\<exists>v idx br bc. f = Block_duplicate v idx br bc))"
proof -
  from assms have rows: "scan_first_violation board Row = None"
    by (simp add: check_rows_Continue)
  have cols: "\<exists>v c. f = Col_duplicate v c" if "check_cols board 0 = Return_false f" for f
  proof -
    from that scan_result_Return_false [of "()" board Column f] obtain u p where
      up: "scan_first_violation board Column = Some (u, p)" "f = unit_fault board Column u p"
      by (auto simp: check_cols_char)
    then have b: "u < 9" "p < 9"
      by (auto simp: scan_first_violation_Some unit_first_violation_Some)
    have "unit_fault board Column u p = Col_duplicate (unit_vals board Column u ! p) u"
      using unit_fault_in_range [OF b(2) rows_ok_unit_range [OF rows b], of Column]
      by (simp del: unit_fault.simps)
    with up(2) show ?thesis by blast
  qed
  have blocks: "\<exists>v idx br bc. f = Block_duplicate v idx br bc"
    if "check_blocks board 0 0 = Return_false f" for f
  proof -
    from that scan_result_Return_false [of 9 board Block f] obtain u p where
      up: "scan_first_violation board Block = Some (u, p)" "f = unit_fault board Block u p"
      by (auto simp: check_blocks_char [where br = 0 and idx = 0, simplified])
    then have b: "u < 9" "p < 9"
      by (auto simp: scan_first_violation_Some unit_first_violation_Some)
    have "unit_fault board Block u p
        = Block_duplicate (unit_vals board Block u ! p) u (u div 3) (u mod 3)"
      using unit_fault_in_range [OF b(2) rows_ok_unit_range [OF rows b], of Block]
      by (simp del: unit_fault.simps)
    with up(2) show ?thesis by blast
  qed
  from rows have "\<forall>r<9. \<forall>c<9. 0 < sint (board r c) \<and> sint (board r c) \<le> 9"
    using rows_ok_range by blast
  moreover from cols have "\<forall>v r c. check_cols board 0 \<noteq> Return_false (Col_invalid v r c)"
    by fastforce
  moreover from blocks
  have "\<forall>v idx r c. check_blocks board 0 0 \<noteq> Return_false (Block_invalid v idx r c)"
    by fastforce
  ultimately show ?thesis using cols blocks by blast
qed

theorem later_scans_report_only_duplicates_witness:
  "check_rows latin 0 = Continue () \<and> check_cols latin 0 = Continue () \<and>
   check_blocks latin 0 0 = Return_false (Block_duplicate 2 0 0 0) \<and>
   0 < sint (latin 8 8) \<and> sint (latin 8 8) \<le> 9"
proof -
  have r: "check_rows latin 0 = Continue ()" by code_simp
  have c: "check_cols latin 0 = Continue ()" by code_simp
  have b: "check_blocks latin 0 0 = Return_false (Block_duplicate 2 0 0 0)" by code_simp
  from later_scans_report_only_duplicates [OF r] have "\<forall>r<9. \<forall>c<9. 0 < sint (latin r c) \<and> sint (latin r c) \<le> 9"
    by blast
  then have "0 < sint (latin 8 8) \<and> sint (latin 8 8) \<le> 9" by simp
  with r c b show ?thesis by simp
qed

section \<open>The queue is a first-in first-out list\<close>

lemma path_dom: "path h p as \<Longrightarrow> a \<in> set as \<Longrightarrow> h a \<noteq> None"
  by (induction as arbitrary: p) (auto split: option.splits)

lemma path_cong:
  "(\<And>a. a \<in> set as \<Longrightarrow> h a = h' a) \<Longrightarrow> path h p as = path h' p as"
  by (induction as arbitrary: p) (auto split: option.splits)

lemma queue_rel_init: "queue_rel (queue_init q) [] []"
  by (simp add: queue_rel_def queue_init_def)

lemma path_last:
  "path h p as \<Longrightarrow> as \<noteq> [] \<Longrightarrow> \<exists>n. h (last as) = Some n \<and> next n = None"
proof (induction as arbitrary: p)
  case Nil
  then show ?case by simp
next
  case (Cons a as)
  then show ?case by (cases as) (auto split: option.splits)
qed

lemma path_append_node:
  assumes "path h p as" "as \<noteq> []" "distinct as" "a \<notin> set as" "h (last as) = Some n"
  shows "path (h(a \<mapsto> \<lparr>task = t, next = None\<rparr>, last as \<mapsto> n\<lparr>next := Some a\<rparr>)) p (as @ [a])"
  using assms
proof (induction as arbitrary: p)
  case Nil
  then show ?case by simp
next
  case (Cons b bs)
  show ?case
  proof (cases "bs = []")
    case True
    with Cons.prems show ?thesis by (auto split: option.splits)
  next
    case False
    from Cons.prems obtain nb where nb: "p = Some b" "h b = Some nb" "path h (next nb) bs"
      by (auto split: option.splits)
    from Cons.prems False have l: "last (b # bs) = last bs" by simp
    let ?h = "h(a \<mapsto> \<lparr>task = t, next = None\<rparr>, last bs \<mapsto> n\<lparr>next := Some a\<rparr>)"
    have ih: "path ?h (next nb) (bs @ [a])"
      using Cons.prems False nb by (intro Cons.IH) (auto simp: l)
    have "b \<noteq> last bs" "b \<noteq> a" using Cons.prems False by auto
    then have hb: "?h b = Some nb" using nb by simp
    show ?thesis
      unfolding l using nb(1) hb ih by (simp del: fun_upd_apply)
  qed
qed

lemma enqueue_task_rel:
  assumes rel: "queue_rel q as xs" and fresh: "nodes q a = None"
  shows "\<exists>q'. enqueue_task q t (Some a) = Returns q' \<and> queue_rel q' (as @ [a]) (xs @ [t])"
proof (cases "as = []")
  case True
  with rel show ?thesis
    by (auto simp: queue_rel_def enqueue_task_def)
next
  case False
  from rel have p: "path (nodes q) (head q) as" and d: "distinct as"
    and tl: "tail q = Some (last as)"
    and xs: "xs = map (\<lambda>a. case nodes q a of None \<Rightarrow> None | Some n \<Rightarrow> task n) as"
    using False by (simp_all add: queue_rel_def)
  from path_last [OF p False] obtain n where n: "nodes q (last as) = Some n" "next n = None"
    by blast
  have notin: "a \<notin> set as" using path_dom [OF p, of a] fresh by auto
  then have ne: "last as \<noteq> a" using False last_in_set by metis
  let ?h = "(nodes q)(a \<mapsto> \<lparr>task = t, next = None\<rparr>, last as \<mapsto> n\<lparr>next := Some a\<rparr>)"
  let ?q = "q\<lparr>tail := Some a, nodes := ?h\<rparr>"
  have e: "enqueue_task q t (Some a) = Returns ?q"
    using tl n ne by (simp add: enqueue_task_def Let_def)
  have "path ?h (head q) (as @ [a])" by (rule path_append_node [OF p False d notin n(1)])
  moreover have "(case ?h b of None \<Rightarrow> None | Some n \<Rightarrow> task n)
      = (case nodes q b of None \<Rightarrow> None | Some n \<Rightarrow> task n)" if "b \<in> set as" for b
    using that notin n by auto
  then have "map (\<lambda>a. case ?h a of None \<Rightarrow> None | Some n \<Rightarrow> task n) as = xs"
    unfolding xs by (intro map_cong) auto
  ultimately have "queue_rel ?q (as @ [a]) (xs @ [t])"
    using d notin ne by (simp add: queue_rel_def)
  with e show ?thesis by blast
qed

lemma dequeue_task_rel:
  assumes rel: "queue_rel q (a # as) (x # xs)"
  shows "\<exists>q'. dequeue_task q = Returns (x, q') \<and> queue_rel q' as xs"
proof -
  from rel obtain n where hd: "head q = Some a" and n: "nodes q a = Some n"
    and p: "path (nodes q) (next n) as" and d: "distinct (a # as)"
    and tl: "tail q = Some (last (a # as))" and x: "x = task n"
    and xs: "xs = map (\<lambda>a. case nodes q a of None \<Rightarrow> None | Some n \<Rightarrow> task n) as"
    by (auto simp: queue_rel_def split: option.splits)
  let ?h = "(nodes q)(a := None)"
  have p': "path ?h (next n) as"
    using p d by (subst path_cong [where h' = "nodes q"]) auto
  have xs': "xs = map (\<lambda>a. case ?h a of None \<Rightarrow> None | Some n \<Rightarrow> task n) as"
    unfolding xs using d by (intro map_cong) auto
  show ?thesis
  proof (cases as)
    case Nil
    with p have "next n = None" by simp
    with hd n x Nil xs show ?thesis
      by (simp add: dequeue_task_def queue_rel_def)
  next
    case (Cons b bs)
    with p have nx: "next n = Some b" by simp
    have "queue_rel (q\<lparr>head := next n, nodes := ?h\<rparr>) as xs"
      using p' xs' d tl Cons by (simp add: queue_rel_def)
    with hd n x nx show ?thesis
      by (simp add: dequeue_task_def)
  qed
qed

lemma dequeue_task_empty: "queue_rel q [] xs \<Longrightarrow> dequeue_task q = Blocks"
  by (simp add: queue_rel_def dequeue_task_def)

lemma queue_rel_empty: "queue_rel q as xs \<Longrightarrow> (xs = []) = (head q = None \<and> tail q = None)"
  by (cases as) (auto simp: queue_rel_def)

lemma queue_rel_length: "queue_rel q as xs \<Longrightarrow> length as = length xs"
  by (simp add: queue_rel_def)

lemma run_fifo:
  assumes "queue_rel q as xs" "malloc_ok q ops"
  shows "case fifo xs ops of
      Returns (ts, ys) \<Rightarrow> \<exists>q' as'. run q ops = Returns (ts, q') \<and> queue_rel q' as' ys
    | Blocks \<Rightarrow> run q ops = Blocks
    | Exits n \<Rightarrow> run q ops = Exits n
    | Invalid_access \<Rightarrow> False"
  using assms
proof (induction ops arbitrary: q as xs)
  case Nil
  then show ?case by auto
next
  case (Cons o1 ops)
  show ?case
  proof (cases o1)
    case (Enqueue t m)
    show ?thesis
    proof (cases m)
      case None
      then show ?thesis by (simp add: Enqueue enqueue_task_def)
    next
      case (Some a)
      with Cons.prems Enqueue have fresh: "nodes q a = None"
        by (simp add: malloc_returns_def)
      from enqueue_task_rel [OF Cons.prems(1) fresh, of t] obtain q' where
        q': "enqueue_task q t (Some a) = Returns q'" "queue_rel q' (as @ [a]) (xs @ [t])"
        by blast
      with Cons.prems Enqueue Some have "malloc_ok q' ops" by simp
      from Cons.IH [OF q'(2) this] show ?thesis
        by (auto simp: Enqueue Some q'(1) split: res.splits)
    qed
  next
    case Dequeue
    show ?thesis
    proof (cases xs)
      case Nil
      with Cons.prems(1) have "as = []" by (simp add: queue_rel_def)
      with Cons.prems(1) Nil show ?thesis by (simp add: Dequeue dequeue_task_empty)
    next
      case (Cons x xs')
      with Cons.prems(1) obtain a as' where as: "as = a # as'"
        by (cases as) (auto simp: queue_rel_def)
      from dequeue_task_rel [OF Cons.prems(1) [unfolded as Cons]] obtain q' where
        q': "dequeue_task q = Returns (x, q')" "queue_rel q' as' xs'" by blast
      with Cons.prems(2) Dequeue have "malloc_ok q' ops" by simp
      from Cons.IH [OF q'(2) this] show ?thesis
        by (auto simp: Dequeue Cons q'(1) split: res.splits)
    qed
  qed
qed

lemma enqueue_task_nodes:
  assumes "enqueue_task q t (Some a) = Returns q'" "nodes q b = None" "b \<noteq> a"
  shows "nodes q' b = None"
  using assms
  by (auto simp: enqueue_task_def Let_def split: option.splits if_splits)

lemma malloc_ok_dequeues: "malloc_ok q (replicate n Dequeue)"
  by (induction n arbitrary: q) (auto split: res.splits)

lemma malloc_ok_enqueues:
  assumes "\<forall>a\<in>set as. nodes q a = None" "distinct as"
  shows "malloc_ok q (enqueues ts as @ replicate n Dequeue)"
  using assms
proof (induction ts arbitrary: as q)
  case Nil
  then show ?case by (simp add: enqueues_def malloc_ok_dequeues)
next
  case (Cons t ts)
  show ?case
  proof (cases as)
    case Nil
    then show ?thesis by (simp add: enqueues_def malloc_ok_dequeues)
  next
    case (Cons a as')
    have "malloc_ok q' (enqueues ts as' @ replicate n Dequeue)"
      if "enqueue_task q t (Some a) = Returns q'" for q'
    proof (rule Cons.IH)
      show "\<forall>b\<in>set as'. nodes q' b = None"
      proof
        fix b assume "b \<in> set as'"
        with Cons.prems Cons have "nodes q b = None" "b \<noteq> a" by auto
        then show "nodes q' b = None" by (rule enqueue_task_nodes [OF that])
      qed
      show "distinct as'" using Cons.prems Cons by simp
    qed
    with Cons.prems Cons show ?thesis
      by (auto simp: enqueues_def malloc_returns_def split: res.splits)
  qed
qed

lemma fifo_enqueues:
  "length as = length ts \<Longrightarrow> fifo xs (enqueues ts as @ ops) = fifo (xs @ ts) ops"
proof (induction ts arbitrary: as xs)
  case Nil
  then show ?case by (simp add: enqueues_def)
next
  case (Cons t ts)
  then obtain a as' where as: "as = a # as'" by (cases as) auto
  with Cons.prems have "length as' = length ts" by simp
  from Cons.IH [OF this, of "xs @ [t]"] show ?case
    by (simp add: enqueues_def as)
qed

lemma fifo_dequeues: "fifo xs (replicate (length xs) Dequeue) = Returns (xs, [])"
  by (induction xs) auto

lemma run_fifo_outputs:
  assumes "queue_rel q as xs" "malloc_ok q ops"
  shows "map_res fst (run q ops) = map_res fst (fifo xs ops)"
  using run_fifo [OF assms] by (auto split: res.splits)

lemma enqueue_task_inv:
  "head_tail_inv q \<Longrightarrow> enqueue_task q t m = Returns q' \<Longrightarrow> head_tail_inv q'"
  by (auto simp: head_tail_inv_def enqueue_task_def Let_def split: option.splits)

lemma dequeue_task_inv:
  "head_tail_inv q \<Longrightarrow> dequeue_task q = Returns (x, q') \<Longrightarrow> head_tail_inv q'"
  by (auto simp: head_tail_inv_def dequeue_task_def Let_def split: option.splits if_splits)

lemma run_inv:
  "head_tail_inv q \<Longrightarrow> run q ops = Returns (ts, q') \<Longrightarrow> head_tail_inv q'"
proof (induction ops arbitrary: q ts)
  case Nil
  then show ?case by simp
next
  case (Cons o1 ops)
  show ?case
  proof (cases o1)
    case (Enqueue t m)
    with Cons.prems obtain q1 where q1: "enqueue_task q t m = Returns q1"
      "run q1 ops = Returns (ts, q')"
      by (auto split: res.splits)
    from Cons.IH [OF enqueue_task_inv [OF Cons.prems(1) q1(1)] q1(2)] show ?thesis .
  next
    case Dequeue
    with Cons.prems obtain x q1 ts' where q1: "dequeue_task q = Returns (x, q1)"
      "run q1 ops = Returns (ts', q')"
      by (auto split: res.splits)
    from Cons.IH [OF dequeue_task_inv [OF Cons.prems(1) q1(1)] q1(2)] show ?thesis .
  qed
qed

section \<open>The claims about the queue\<close>

text \<open>
  Claim C6. The linked-list queue refines a first-in first-out list. Whatever calls of
  \<^verbatim>\<open>enqueue_task\<close> and \<^verbatim>\<open>dequeue_task\<close> are made on a queue that \<^verbatim>\<open>queue_init\<close> set up,
  the calls of \<^verbatim>\<open>dequeue_task\<close> return what the list returns, wait where it is empty, and
  the process exits only where \<^verbatim>\<open>malloc\<close> fails. In particular, after any entries (task
  pointers or \<^verbatim>\<open>NULL\<close> sentinels) have been enqueued, as many calls of \<^verbatim>\<open>dequeue_task\<close> return
  exactly these entries in the order they were enqueued, each once, and the next call waits.
\<close>

theorem queue_refines_fifo:
  "(malloc_ok (queue_init q0) ops \<longrightarrow>
      map_res fst (run (queue_init q0) ops) = map_res fst (fifo [] ops)) \<and>
   (distinct as \<and> (\<forall>a\<in>set as. nodes q0 a = None) \<and> length as = length ts \<longrightarrow>
      (\<exists>q. run (queue_init q0) (enqueues ts as @ replicate (length ts) Dequeue)
              = Returns (ts, q) \<and>
           dequeue_task q = Blocks))"
proof (intro conjI impI)
  assume "malloc_ok (queue_init q0) ops"
  with queue_rel_init show
    "map_res fst (run (queue_init q0) ops) = map_res fst (fifo [] ops)"
    by (rule run_fifo_outputs)
next
  assume a: "distinct as \<and> (\<forall>a\<in>set as. nodes q0 a = None) \<and> length as = length ts"
  let ?ops = "enqueues ts as @ replicate (length ts) Dequeue"
  from a have "malloc_ok (queue_init q0) ?ops"
    by (intro malloc_ok_enqueues) (simp_all add: queue_init_def)
  from run_fifo [OF queue_rel_init this] a
  obtain q as' where q: "run (queue_init q0) ?ops = Returns (ts, q)" "queue_rel q as' []"
    using fifo_dequeues [of ts] by (auto simp: fifo_enqueues)
  from q(2) have "as' = []" by (simp add: queue_rel_def)
  with q(2) have "dequeue_task q = Blocks" by (simp add: dequeue_task_empty)
  with q(1) show "\<exists>q. run (queue_init q0) ?ops = Returns (ts, q) \<and> dequeue_task q = Blocks"
    by blast
qed

theorem queue_refines_fifo_witness:
  "malloc_ok (queue_init empty_queue)
     [Enqueue (Some 1) (Some 10), Enqueue None (Some 11), Dequeue,
      Enqueue (Some 2) (Some 10), Dequeue, Dequeue] \<and>
   map_res fst (run (queue_init empty_queue)
     [Enqueue (Some 1) (Some 10), Enqueue None (Some 11), Dequeue,
      Enqueue (Some 2) (Some 10), Dequeue, Dequeue])
     = Returns [Some 1, None, Some 2] \<and>
   map_res fst (run (queue_init empty_queue)
     (enqueues [Some 7, None, Some 8] [20, 21, 22] @ [Dequeue, Dequeue, Dequeue]))
     = Returns [Some 7, None, Some 8]"
proof -
  let ?ops = "[Enqueue (Some (1::nat)) (Some 10), Enqueue None (Some 11), Dequeue,
      Enqueue (Some 2) (Some 10), Dequeue, Dequeue]"
  let ?ts = "[Some (7::nat), None, Some 8]"
  have m: "malloc_ok (queue_init empty_queue) ?ops"
    by (simp add: queue_init_def empty_queue_def malloc_returns_def enqueue_task_def
        dequeue_task_def Let_def)
  have f: "map_res fst (fifo [] ?ops) = Returns [Some 1, None, Some 2]" by simp
  have d: "distinct [20, 21, 22 :: nat] \<and> (\<forall>a\<in>set [20, 21, 22]. nodes empty_queue a = None)
      \<and> length [20, 21, 22 :: nat] = length ?ts"
    by (simp add: empty_queue_def)
  have "map_res fst (run (queue_init empty_queue) ?ops) = map_res fst (fifo [] ?ops)"
    using queue_refines_fifo [of empty_queue ?ops] m by blast
  then have r1: "map_res fst (run (queue_init empty_queue) ?ops)
      = Returns [Some 1, None, Some 2]"
    by (simp only: f)
  obtain q where e1: "run (queue_init empty_queue)
      (enqueues ?ts [20, 21, 22] @ replicate (length ?ts) Dequeue) = Returns (?ts, q)"
    using queue_refines_fifo [of empty_queue _ "[20, 21, 22]" ?ts] d by blast
  have e2: "replicate (length ?ts) (Dequeue :: nat op) = [Dequeue, Dequeue, Dequeue]"
    by (simp add: numeral_3_eq_3)
  have r2: "map_res fst (run (queue_init empty_queue)
      (enqueues ?ts [20, 21, 22] @ [Dequeue, Dequeue, Dequeue])) = Returns ?ts"
    by (simp only: e1 [unfolded e2] res.map fst_conv)
  from m r1 r2 show ?thesis by (intro conjI)
qed

text \<open>
  Claim C9. In every queue reached from \<^verbatim>\<open>queue_init\<close> by calls of \<^verbatim>\<open>enqueue_task\<close> and
  \<^verbatim>\<open>dequeue_task\<close>, \<^verbatim>\<open>head\<close> is \<^verbatim>\<open>NULL\<close> exactly when \<^verbatim>\<open>tail\<close> is, and the queue holds no
  entry exactly when both are \<^verbatim>\<open>NULL\<close>; each single call of \<^verbatim>\<open>enqueue_task\<close> and
  \<^verbatim>\<open>dequeue_task\<close> that returns preserves the first property.
\<close>

theorem head_tail_invariant:
  "head_tail_inv (queue_init q0) \<and>
   (head_tail_inv q \<and> enqueue_task q t m = Returns q' \<longrightarrow> head_tail_inv q') \<and>
   (head_tail_inv q \<and> dequeue_task q = Returns (x, q'') \<longrightarrow> head_tail_inv q'') \<and>
   (run (queue_init q0) ops = Returns (ts, qn) \<longrightarrow> head_tail_inv qn) \<and>
   (malloc_ok (queue_init q0) ops \<and> run (queue_init q0) ops = Returns (ts, qn) \<and>
      fifo [] ops = Returns (ts', xs) \<longrightarrow>
      (xs = []) = (head qn = None \<and> tail qn = None))"
proof (intro conjI impI)
  show i: "head_tail_inv (queue_init q0)" by (simp add: head_tail_inv_def queue_init_def)
  show "head_tail_inv qn" if "run (queue_init q0) ops = Returns (ts, qn)"
    using run_inv [OF i that] .
next
  assume "head_tail_inv q \<and> enqueue_task q t m = Returns q'"
  then show "head_tail_inv q'" using enqueue_task_inv by blast
next
  assume "head_tail_inv q \<and> dequeue_task q = Returns (x, q'')"
  then show "head_tail_inv q''" using dequeue_task_inv by blast
next
  assume a: "malloc_ok (queue_init q0) ops \<and> run (queue_init q0) ops = Returns (ts, qn) \<and>
      fifo [] ops = Returns (ts', xs)"
  with run_fifo [OF queue_rel_init, of q0 ops] obtain as' where "queue_rel qn as' xs"
    by auto
  then show "(xs = []) = (head qn = None \<and> tail qn = None)" by (rule queue_rel_empty)
qed

theorem head_tail_invariant_witness:
  "head_tail_inv (queue_init empty_queue) \<and>
   run (queue_init empty_queue) [Enqueue (Some 1) (Some 10), Enqueue None (Some 11), Dequeue]
     = Returns ([Some 1],
         \<lparr>head = Some 11, tail = Some 11,
          nodes = [11 \<mapsto> \<lparr>task = None, next = None\<rparr>]\<rparr>) \<and>
   head_tail_inv \<lparr>head = Some 11, tail = Some (11::nat),
     nodes = [11 \<mapsto> \<lparr>task = None :: nat option, next = None\<rparr>]\<rparr>"
proof -
  let ?ops = "[Enqueue (Some (1::nat)) (Some 10), Enqueue None (Some 11), Dequeue]"
  let ?qn = "\<lparr>head = Some 11, tail = Some (11::nat),
     nodes = [11 \<mapsto> \<lparr>task = None :: nat option, next = None\<rparr>]\<rparr>"
  have r: "run (queue_init empty_queue) ?ops = Returns ([Some 1], ?qn)"
    by (simp add: queue_init_def empty_queue_def enqueue_task_def dequeue_task_def Let_def
        fun_eq_iff)
  have "head_tail_inv ?qn"
    using head_tail_invariant [where ?q0.0 = empty_queue and ops = ?ops
        and ts = "[Some 1]" and qn = ?qn] r
    by blast
  moreover have "head_tail_inv (queue_init (empty_queue :: nat task_queue))"
    using head_tail_invariant [where ?q0.0 = "empty_queue :: nat task_queue"] by blast
  ultimately show ?thesis using r by (intro conjI)
qed

section \<open>The pool keeps its invariant\<close>

lemma length_filter_update:
  "w < length ws \<Longrightarrow>
     length (filter P (ws[w := x])) + (if P (ws ! w) then 1 else 0)
       = length (filter P ws) + (if P x then 1 else 0)"
proof (induction ws arbitrary: w)
  case Nil
  then show ?case by simp
next
  case (Cons a ws)
  then show ?case by (cases w) auto
qed

lemma live_update:
  "w < length ws \<Longrightarrow>
     live (ws[w := x]) + (if ws ! w \<noteq> Terminated then 1 else 0)
       = live ws + (if x \<noteq> Terminated then 1 else 0)"
  unfolding live_def by (rule length_filter_update)

lemma busy_update:
  "w < length ws \<Longrightarrow>
     busy (ws[w := x]) + (if \<exists>t. ws ! w = Processing t then 1 else 0)
       = busy ws + (if \<exists>t. x = Processing t then 1 else 0)"
  unfolding busy_def by (rule length_filter_update)

lemma live_le: "live ws \<le> length ws"
  by (simp add: live_def)

lemma live_replicate [simp]: "live (replicate n Idle_Waiting) = n"
  by (simp add: live_def)

lemma busy_replicate [simp]: "busy (replicate n Idle_Waiting) = 0"
  by (simp add: busy_def)

lemma live_pos: "w < length ws \<Longrightarrow> ws ! w \<noteq> Terminated \<Longrightarrow> 0 < live ws"
  by (auto simp: live_def filter_empty_conv intro!: bexI [of _ "ws ! w"])

lemma main_events_snoc [simp]:
  "main_events (es @ [e]) = main_events es @ (if is_main e then [e] else [])"
  by (simp add: main_events_def)

lemma dequeued_by_snoc [simp]:
  "dequeued_by w (es @ [e]) =
     dequeued_by w es @ (case e of Dequeued w' x \<Rightarrow> if w' = w then [x] else [] | _ \<Rightarrow> [])"
  by (simp add: dequeued_by_def)

lemma is_main_simps [simp]:
  "is_main (Read_failed i)" "is_main Malloc_failed" "is_main (Enqueued x)" "is_main (Joined w)"
  "is_main (Main_returned rc)" "\<not> is_main (Dequeued w x)" "\<not> is_main (Printed w k ok reason)"
  "is_main Crash"
  by (simp_all add: is_main_def)

lemma inv_at_start: "inv_at (Submitting 1) [] (start n count q0)"
  unfolding inv_at_def
  by (auto simp: start_def bound_def worker_hist_def main_events_def dequeued_by_def
      submitted_def balance_def intro!: exI [of _ "[]"] queue_rel_init)

lemma main_enqueue_cases:
  assumes "main_enqueue s t m pc = Some (e, s')" "queue_rel (queue s) as xs"
  shows "(m = None \<and> e = Malloc_failed \<and> s' = s\<lparr>main := Exited 1\<rparr>) \<or>
     (\<exists>a q'. m = Some a \<and> e = Enqueued (map_option task_id t) \<and>
        s' = s\<lparr>queue := q', main := pc\<rparr> \<and> queue_rel q' (as @ [a]) (xs @ [t]))"
proof (cases m)
  case None
  with assms(1) show ?thesis
    by (simp add: main_enqueue_def malloc_returns_def enqueue_task_def)
next
  case (Some a)
  with assms(1) have fresh: "nodes (queue s) a = None"
    by (simp add: main_enqueue_def malloc_returns_def split: if_splits)
  from enqueue_task_rel [OF assms(2) fresh, of t] obtain q' where
    q': "enqueue_task (queue s) t (Some a) = Returns q'" "queue_rel q' (as @ [a]) (xs @ [t])"
    by blast
  with assms(1) Some fresh show ?thesis
    by (auto simp: main_enqueue_def malloc_returns_def)
qed

lemma balance_alive:
  "(\<forall>c. pc \<noteq> Exited c) \<Longrightarrow> pc \<noteq> Crashed \<Longrightarrow>
     balance pc s xs
       = (sent (worker_count s) pc + live (workers s) = worker_count s + count_list xs None)"
  by (cases pc) (auto simp: balance_def)

lemma inv_at_exit:
  assumes inv: "inv_at pc es s"
    and tr: "main_trace (worker_count s) (board_count s) (Exited 1)
               (main_events es @ [Malloc_failed])"
    and rk: "1 \<le> rank (worker_count s) (board_count s) pc"
  shows "inv_at (Exited 1) (es @ [Malloc_failed]) (s\<lparr>main := Exited 1\<rparr>)"
proof -
  from inv obtain as xs where q: "queue_rel (queue s) as xs"
    and m: "length es + rank (worker_count s) (board_count s) pc + 2 * length xs
           + busy (workers s) \<le> bound s"
    by (auto simp: inv_at_def)
  have "queue_rel (queue s) as xs \<and> balance (Exited 1) (s\<lparr>main := Exited 1\<rparr>) xs \<and>
      length (es @ [Malloc_failed])
        + rank (worker_count s) (board_count s) (Exited 1) + 2 * length xs
        + busy (workers s) \<le> bound s"
    using q m rk by (simp add: balance_def)
  then show ?thesis
    using inv tr unfolding inv_at_def
    by (auto simp: bound_def)
qed

lemma main_enqueue_inv:
  assumes inv: "inv_at pc es s"
    and step: "main_enqueue s t m pc' = Some (e, s')"
    and tr_exit: "main_trace (worker_count s) (board_count s) (Exited 1)
               (main_events es @ [Malloc_failed])"
    and st: "sent (worker_count s) pc' = sent (worker_count s) pc + (if t = None then 1 else 0)"
    and rk: "rank (worker_count s) (board_count s) pc' + 3
               \<le> rank (worker_count s) (board_count s) pc"
    and pi: "pc_inv pc' s"
    and tr: "main_trace (worker_count s) (board_count s) pc'
               (main_events es @ [Enqueued (map_option task_id t)])"
    and alive: "(\<forall>c. pc \<noteq> Exited c) \<and> pc \<noteq> Crashed \<and> (\<forall>c. pc' \<noteq> Exited c) \<and> pc' \<noteq> Crashed"
  shows "inv_at (main s') (es @ [e]) s'"
proof -
  from inv obtain as xs where q: "queue_rel (queue s) as xs"
    and b: "balance pc s xs"
    and m: "length es + rank (worker_count s) (board_count s) pc + 2 * length xs
           + busy (workers s) \<le> bound s"
    by (auto simp: inv_at_def)
  from main_enqueue_cases [OF step q] show ?thesis
  proof
    assume "m = None \<and> e = Malloc_failed \<and> s' = s\<lparr>main := Exited 1\<rparr>"
    moreover have "inv_at (Exited 1) (es @ [Malloc_failed]) (s\<lparr>main := Exited 1\<rparr>)"
      using inv tr_exit rk by (intro inv_at_exit [of pc]) auto
    ultimately show ?thesis by simp
  next
    assume "\<exists>a q'. m = Some a \<and> e = Enqueued (map_option task_id t) \<and>
        s' = s\<lparr>queue := q', main := pc'\<rparr> \<and> queue_rel q' (as @ [a]) (xs @ [t])"
    then obtain a q' where e: "e = Enqueued (map_option task_id t)"
      and s': "s' = s\<lparr>queue := q', main := pc'\<rparr>"
      and q': "queue_rel q' (as @ [a]) (xs @ [t])" by blast
    have b': "balance pc' s' (xs @ [t])"
      using b st alive by (cases t) (simp_all add: balance_alive s')
    have m': "length (es @ [e]) + rank (worker_count s') (board_count s') pc'
        + 2 * length (xs @ [t]) + busy (workers s') \<le> bound s'"
      using m rk by (simp add: s' bound_def)
    have pi': "pc_inv pc' s'" using pi by (cases pc') (auto simp: s')
    from q' b' m' have "\<exists>as xs. queue_rel (queue s') as xs \<and> balance pc' s' xs \<and>
        length (es @ [e]) + rank (worker_count s') (board_count s') pc'
        + 2 * length xs + busy (workers s') \<le> bound s'"
      by (intro exI [of _ "as @ [a]"] exI [of _ "xs @ [t]"]) (simp add: s')
    moreover have "main s' = pc'" by (simp add: s')
    ultimately show ?thesis
      using inv tr pi' unfolding inv_at_def
      by (simp add: e) (simp add: s')
  qed
qed

lemma inv_at_main_update:
  assumes inv: "inv_at pc es s"
    and al: "(\<forall>c. pc \<noteq> Exited c) \<and> pc \<noteq> Crashed \<and> (\<forall>c. pc' \<noteq> Exited c) \<and> pc' \<noteq> Crashed"
    and st: "sent (worker_count s) pc' = sent (worker_count s) pc"
    and rk: "rank (worker_count s) (board_count s) pc' + length es'
               \<le> rank (worker_count s) (board_count s) pc"
    and pi: "pc_inv pc' s"
    and tr: "main_trace (worker_count s) (board_count s) pc' (main_events (es @ es'))"
    and nd: "\<forall>w. dequeued_by w (es @ es') = dequeued_by w es"
  shows "inv_at pc' (es @ es') (s\<lparr>main := pc'\<rparr>)"
proof -
  from inv obtain as xs where q: "queue_rel (queue s) as xs"
    and b: "balance pc s xs"
    and m: "length es + rank (worker_count s) (board_count s) pc + 2 * length xs
           + busy (workers s) \<le> bound s"
    by (auto simp: inv_at_def)
  have "queue_rel (queue s) as xs \<and> balance pc' (s\<lparr>main := pc'\<rparr>) xs \<and>
      length (es @ es') + rank (worker_count s) (board_count s) pc' + 2 * length xs
        + busy (workers s) \<le> bound s"
    using q b m st rk al by (simp add: balance_alive)
  moreover have "pc_inv pc' (s\<lparr>main := pc'\<rparr>)" using pi by (cases pc') auto
  ultimately show ?thesis
    using inv tr nd unfolding inv_at_def by (auto simp: bound_def)
qed

lemma join_step_inv:
  assumes inv: "inv_at (Joining f w) es s" and step: "join_step f w s = Some (e, s')"
  shows "inv_at (main s') (es @ [e]) s'"
proof (cases "w < worker_count s")
  case True
  with step have t: "workers s ! w = Terminated" and e: "e = Joined w"
    and s': "s' = s\<lparr>main := Joining f (w + 1)\<rparr>"
    by (auto simp: join_step_def split: worker_state.splits)
  from inv have pi: "pc_inv (Joining f w) s"
    and tr: "main_trace (worker_count s) (board_count s) (Joining f w) (main_events es)"
    by (simp_all add: inv_at_def)
  have "inv_at (Joining f (w + 1)) (es @ [e]) (s\<lparr>main := Joining f (w + 1)\<rparr>)"
  proof (rule inv_at_main_update [OF inv])
    show "pc_inv (Joining f (w + 1)) s"
      using pi t True by (auto simp: less_Suc_eq)
    show "main_trace (worker_count s) (board_count s) (Joining f (w + 1))
        (main_events (es @ [e]))"
      using tr by (simp add: e)
    show "rank (worker_count s) (board_count s) (Joining f (w + 1)) + length [e]
        \<le> rank (worker_count s) (board_count s) (Joining f w)"
      using True by simp
  qed (simp_all add: e)
  then show ?thesis by (simp add: s')
next
  case False
  define rc :: int where "rc = (case f of None \<Rightarrow> 0 | Some i \<Rightarrow> 1)"
  from False step have e: "e = Main_returned rc" and s': "s' = s\<lparr>main := Returned rc\<rparr>"
    by (auto simp: join_step_def rc_def Let_def)
  from inv have pi: "pc_inv (Joining f w) s"
    and tr: "main_trace (worker_count s) (board_count s) (Joining f w) (main_events es)"
    by (simp_all add: inv_at_def)
  from pi False have w: "w = worker_count s" by simp
  have "inv_at (Returned rc) (es @ [e]) (s\<lparr>main := Returned rc\<rparr>)"
  proof (rule inv_at_main_update [OF inv])
    show "pc_inv (Returned rc) s" using pi w by simp
    show "main_trace (worker_count s) (board_count s) (Returned rc) (main_events (es @ [e]))"
      using tr w by (auto simp: e rc_def intro!: exI [of _ f])
    show "rank (worker_count s) (board_count s) (Returned rc) + length [e]
        \<le> rank (worker_count s) (board_count s) (Joining f w)"
      by simp
  qed (simp_all add: e)
  then show ?thesis by (simp add: s')
qed

lemma inv_at_weaken:
  assumes inv: "inv_at pc es s"
    and al: "(\<forall>c. pc \<noteq> Exited c) \<and> pc \<noteq> Crashed \<and> (\<forall>c. pc' \<noteq> Exited c) \<and> pc' \<noteq> Crashed"
    and st: "sent (worker_count s) pc' = sent (worker_count s) pc"
    and rk: "rank (worker_count s) (board_count s) pc'
               \<le> rank (worker_count s) (board_count s) pc"
    and pi: "pc_inv pc' s"
    and tr: "main_trace (worker_count s) (board_count s) pc' (main_events es)"
  shows "inv_at pc' es s"
proof -
  from inv obtain as xs where q: "queue_rel (queue s) as xs"
    and b: "balance pc s xs"
    and m: "length es + rank (worker_count s) (board_count s) pc + 2 * length xs
           + busy (workers s) \<le> bound s"
    by (auto simp: inv_at_def)
  have "queue_rel (queue s) as xs \<and> balance pc' s xs \<and>
      length es + rank (worker_count s) (board_count s) pc' + 2 * length xs
        + busy (workers s) \<le> bound s"
    using q b m st rk al by (simp add: balance_alive)
  then show ?thesis
    using inv tr pi unfolding inv_at_def by auto
qed

lemma sentinel_step_inv:
  assumes inv: "inv_at (Sentinels f w) es s" and step: "sentinel_step f w s m = Some (e, s')"
  shows "inv_at (main s') (es @ [e]) s'"
proof (cases "w < worker_count s")
  case True
  from inv have tr: "main_events es = before_shutdown (board_count s) f
      @ replicate w (Enqueued None)"
    by (simp add: inv_at_def)
  from True step have "main_enqueue s None m (Sentinels f (w + 1)) = Some (e, s')"
    by (simp add: sentinel_step_def)
  then show ?thesis
  proof (rule main_enqueue_inv [OF inv])
    show "main_trace (worker_count s) (board_count s) (Exited 1)
        (main_events es @ [Malloc_failed])"
      using True tr by auto
    show "main_trace (worker_count s) (board_count s) (Sentinels f (w + 1))
        (main_events es @ [Enqueued (map_option task_id None)])"
      using tr by (simp add: replicate_append_same)
    show "rank (worker_count s) (board_count s) (Sentinels f (w + 1)) + 3
        \<le> rank (worker_count s) (board_count s) (Sentinels f w)"
      using True by simp
    show "pc_inv (Sentinels f (w + 1)) s" using True by simp
  qed simp_all
next
  case False
  from inv have pi: "pc_inv (Sentinels f w) s"
    and tr: "main_events es = before_shutdown (board_count s) f
      @ replicate w (Enqueued None)"
    by (simp_all add: inv_at_def)
  with False have w: "w = worker_count s" by simp
  have "inv_at (Joining f 0) es s"
    by (rule inv_at_weaken [OF inv]) (simp_all add: w tr)
  moreover from False step have "join_step f 0 s = Some (e, s')"
    by (simp add: sentinel_step_def)
  ultimately show ?thesis by (rule join_step_inv)
qed

lemma submitted_Suc: "1 \<le> i \<Longrightarrow> submitted (Suc i) = submitted i @ [Enqueued (Some (int i))]"
  by (simp add: submitted_def)

lemma submit_step_inv:
  assumes inv: "inv_at (Submitting i) es s"
    and step: "submit_step i s rd tm m = Some (e, s')"
  shows "inv_at (main s') (es @ [e]) s'"
proof (cases "i \<le> board_count s")
  case True
  from inv have pi: "1 \<le> i" and tr: "main_events es = submitted i"
    by (simp_all add: inv_at_def)
  have ex: "main_trace (worker_count s) (board_count s) (Exited 1)
        (main_events es @ [Malloc_failed])"
    using tr by auto
  show ?thesis
  proof (cases rd)
    case None
    with True step have e: "e = Read_failed i" and s': "s' = s\<lparr>main := Sentinels (Some i) 0\<rparr>"
      by (auto simp: submit_step_def)
    have "inv_at (Sentinels (Some i) 0) (es @ [e]) (s\<lparr>main := Sentinels (Some i) 0\<rparr>)"
    proof (rule inv_at_main_update [OF inv])
      show "main_trace (worker_count s) (board_count s) (Sentinels (Some i) 0)
          (main_events (es @ [e]))"
        using tr by (simp add: e before_shutdown_def)
      show "rank (worker_count s) (board_count s) (Sentinels (Some i) 0) + length [e]
          \<le> rank (worker_count s) (board_count s) (Submitting i)"
        using True by simp
    qed (simp_all add: e)
    then show ?thesis by (simp add: s')
  next
    case (Some b)
    show ?thesis
    proof (cases tm)
      case False
      with True Some step have e: "e = Malloc_failed" and s': "s' = s\<lparr>main := Exited 1\<rparr>"
        by (auto simp: submit_step_def)
      have "inv_at (Exited 1) (es @ [Malloc_failed]) (s\<lparr>main := Exited 1\<rparr>)"
        using inv ex by (rule inv_at_exit) simp
      then show ?thesis by (simp add: e s')
    next
      case tm: True
      with True Some step have
        "main_enqueue s (Some \<lparr>task_id = int i, task_board = b\<rparr>) m (Submitting (i + 1))
           = Some (e, s')"
        by (simp add: submit_step_def)
      then show ?thesis
      proof (rule main_enqueue_inv [OF inv])
        show "main_trace (worker_count s) (board_count s) (Submitting (i + 1))
            (main_events es @ [Enqueued (map_option task_id
               (Some \<lparr>task_id = int i, task_board = b\<rparr>))])"
          using tr pi by (simp add: submitted_Suc)
        show "rank (worker_count s) (board_count s) (Submitting (i + 1)) + 3
            \<le> rank (worker_count s) (board_count s) (Submitting i)"
          using True by simp
        show "pc_inv (Submitting (i + 1)) s" using True by simp
        show "main_trace (worker_count s) (board_count s) (Exited 1)
            (main_events es @ [Malloc_failed])" by (rule ex)
      qed simp_all
    qed
  qed
next
  case False
  from inv have pi: "pc_inv (Submitting i) s" and tr: "main_events es = submitted i"
    by (simp_all add: inv_at_def)
  with False have i: "i = board_count s + 1" by simp
  have "inv_at (Sentinels None 0) es s"
    by (rule inv_at_weaken [OF inv]) (simp_all add: i tr before_shutdown_def)
  moreover from False step have "sentinel_step None 0 s m = Some (e, s')"
    by (simp add: submit_step_def)
  ultimately show ?thesis by (rule sentinel_step_inv)
qed

lemma main_step_inv:
  assumes inv: "inv_at (main s) es s" and step: "main_step s rd tm m = Some (e, s')"
  shows "inv_at (main s') (es @ [e]) s'"
proof (cases "main s")
  case (Submitting i)
  with inv step show ?thesis by (auto simp: main_step_def intro: submit_step_inv)
next
  case (Sentinels f w)
  with inv step show ?thesis by (auto simp: main_step_def intro: sentinel_step_inv)
next
  case (Joining f w)
  with inv step show ?thesis by (auto simp: main_step_def intro: join_step_inv)
qed (use step in \<open>simp_all add: main_step_def\<close>)

lemma pc_inv_worker_update:
  assumes "pc_inv pc s" "w < length (workers s)" "workers s ! w \<noteq> Terminated"
    "length (workers s) = worker_count s"
  shows "pc_inv pc (s\<lparr>queue := q', workers := (workers s)[w := x]\<rparr>)"
  using assms by (cases pc) (auto simp: nth_list_update)

lemma inv_at_worker_update:
  assumes inv: "inv_at pc es s"
    and al: "(\<forall>c. pc \<noteq> Exited c) \<and> pc \<noteq> Crashed"
    and w: "w < length (workers s)" "workers s ! w \<noteq> Terminated"
    and q: "\<And>as xs. queue_rel (queue s) as xs \<Longrightarrow>
        \<exists>as' xs'. queue_rel q' as' xs' \<and>
          live ((workers s)[w := x]) + count_list xs None
            = live (workers s) + count_list xs' None \<and>
          1 + 2 * length xs' + busy ((workers s)[w := x])
            \<le> 2 * length xs + busy (workers s)"
    and e: "\<not> is_main e"
    and h: "worker_hist (dequeued_by w (es @ [e])) x"
    and o: "\<And>w'. w' \<noteq> w \<Longrightarrow> dequeued_by w' (es @ [e]) = dequeued_by w' es"
  shows "inv_at pc (es @ [e]) (s\<lparr>queue := q', workers := (workers s)[w := x]\<rparr>)"
proof -
  let ?s = "s\<lparr>queue := q', workers := (workers s)[w := x]\<rparr>"
  from inv obtain as xs where q0: "queue_rel (queue s) as xs"
    and b: "balance pc s xs"
    and m: "length es + rank (worker_count s) (board_count s) pc + 2 * length xs
           + busy (workers s) \<le> bound s"
    by (auto simp: inv_at_def)
  from inv have len: "length (workers s) = worker_count s"
    and pi: "pc_inv pc s"
    and tr: "main_trace (worker_count s) (board_count s) pc (main_events es)"
    and hist: "\<forall>w<worker_count s. worker_hist (dequeued_by w es) (workers s ! w)"
    by (simp_all add: inv_at_def)
  from q [OF q0] obtain as' xs' where q': "queue_rel q' as' xs'"
    and l: "live ((workers s)[w := x]) + count_list xs None
            = live (workers s) + count_list xs' None"
    and d: "1 + 2 * length xs' + busy ((workers s)[w := x])
            \<le> 2 * length xs + busy (workers s)"
    by blast
  have "queue_rel (queue ?s) as' xs' \<and> balance pc ?s xs' \<and>
      length (es @ [e]) + rank (worker_count ?s) (board_count ?s) pc + 2 * length xs'
        + busy (workers ?s) \<le> bound ?s"
    using q' b l d m al by (simp add: balance_alive bound_def)
  then have 1: "\<exists>as xs. queue_rel (queue ?s) as xs \<and> balance pc ?s xs \<and>
      length (es @ [e]) + rank (worker_count ?s) (board_count ?s) pc + 2 * length xs
        + busy (workers ?s) \<le> bound ?s"
    by blast
  have 2: "pc_inv pc ?s" by (rule pc_inv_worker_update [OF pi w len])
  have 3: "main_trace (worker_count ?s) (board_count ?s) pc (main_events (es @ [e]))"
    using tr e by simp
  have 4: "\<forall>w'<worker_count ?s. worker_hist (dequeued_by w' (es @ [e])) (workers ?s ! w')"
  proof (intro allI impI)
    fix w' assume w': "w' < worker_count ?s"
    show "worker_hist (dequeued_by w' (es @ [e])) (workers ?s ! w')"
    proof (cases "w' = w")
      case True
      with h w show ?thesis by simp
    next
      case False
      with hist w' o [OF False] show ?thesis by simp
    qed
  qed
  from 1 2 3 4 len show ?thesis unfolding inv_at_def by simp
qed

lemma worker_hist_idle:
  assumes that: "st' \<noteq> Terminated" and "worker_hist d st" "st \<noteq> Terminated"
  shows "worker_hist (d @ [x]) (case x of None \<Rightarrow> Terminated | Some t \<Rightarrow> st')"
proof -
  from assms have "None \<notin> set (butlast d)" "d = [] \<or> last d \<noteq> None"
    by (auto simp: worker_hist_def)
  then have "None \<notin> set d"
    by (cases d rule: rev_cases) auto
  with that show ?thesis by (cases x) (auto simp: worker_hist_def)
qed

lemma worker_loop_inv:
  assumes inv: "inv_at (main s) es s" and step: "worker_loop s w = Some (e, s')"
  shows "inv_at (main s') (es @ [e]) s'"
proof -
  from step have w: "w < length (workers s)" and pa: "process_alive s"
    by (auto simp: worker_loop_def split: if_splits)
  from pa have al: "(\<forall>c. main s \<noteq> Exited c) \<and> main s \<noteq> Crashed"
    by (auto simp: process_alive_def)
  from inv have len: "length (workers s) = worker_count s"
    and hist: "worker_hist (dequeued_by w es) (workers s ! w)"
    using w by (simp_all add: inv_at_def)
  show ?thesis
  proof (cases "workers s ! w")
    case Idle_Waiting
    from inv obtain as0 xs0 where q0: "queue_rel (queue s) as0 xs0"
      by (auto simp: inv_at_def)
    have ne: "xs0 \<noteq> []"
    proof
      assume "xs0 = []"
      with q0 have "as0 = []" by (simp add: queue_rel_def)
      with q0 have "dequeue_task (queue s) = Blocks" by (simp add: dequeue_task_empty)
      with step w pa Idle_Waiting show False by (simp add: worker_loop_def)
    qed
    then obtain x xs1 where xs0: "xs0 = x # xs1" by (cases xs0) auto
    with q0 obtain a as1 where as0: "as0 = a # as1"
      by (cases as0) (auto simp: queue_rel_def)
    from dequeue_task_rel [OF q0 [unfolded as0 xs0]] obtain q' where
      dq: "dequeue_task (queue s) = Returns (x, q')" and q1: "queue_rel q' as1 xs1" by blast
    define st where "st = (case x of None \<Rightarrow> Terminated | Some t \<Rightarrow> Processing t)"
    from step w pa Idle_Waiting dq have e: "e = Dequeued w (map_option task_id x)"
      and s': "s' = s\<lparr>queue := q', workers := (workers s)[w := st]\<rparr>"
      by (auto simp: worker_loop_def st_def split: option.splits)
    have "inv_at (main s) (es @ [e]) (s\<lparr>queue := q', workers := (workers s)[w := st]\<rparr>)"
    proof (rule inv_at_worker_update [OF inv al w])
      show "workers s ! w \<noteq> Terminated" by (simp add: Idle_Waiting)
      show "\<not> is_main e" by (simp add: e)
      show "dequeued_by w' (es @ [e]) = dequeued_by w' es" if "w' \<noteq> w" for w'
        using that by (simp add: e)
      show "worker_hist (dequeued_by w (es @ [e])) st"
      proof (cases x)
        case None
        with worker_hist_idle [OF _ hist, of Idle_Waiting "None :: int option"] Idle_Waiting
        show ?thesis by (simp add: e st_def)
      next
        case (Some t)
        with worker_hist_idle [OF _ hist, of "Processing t" "Some (task_id t)"] Idle_Waiting
        show ?thesis by (simp add: e st_def)
      qed
      show "\<exists>as' xs'. queue_rel q' as' xs' \<and>
          live ((workers s)[w := st]) + count_list xs None
            = live (workers s) + count_list xs' None \<and>
          1 + 2 * length xs' + busy ((workers s)[w := st])
            \<le> 2 * length xs + busy (workers s)"
        if "queue_rel (queue s) as xs" for as xs
      proof -
        from that obtain a' as' where as: "as = a' # as'"
          using dq by (cases as) (auto simp: dequeue_task_empty)
        with that obtain x' xs' where xs: "xs = x' # xs'"
          by (cases xs) (auto simp: queue_rel_def)
        from dequeue_task_rel [OF that [unfolded as xs]] dq
        have x': "x' = x" and q'': "queue_rel q' as' xs'" by auto
        from live_update [OF w, of st] busy_update [OF w, of st] Idle_Waiting
        have "live ((workers s)[w := st]) + count_list xs None
            = live (workers s) + count_list xs' None"
          and "1 + 2 * length xs' + busy ((workers s)[w := st])
            \<le> 2 * length xs + busy (workers s)"
          by (auto simp: xs x' st_def split: option.splits)
        with q'' show ?thesis by blast
      qed
    qed
    then show ?thesis by (simp add: s')
  next
    case (Processing t)
    from validate_returns [of "task_board t" "[]" 128] obtain ok reason where
      v: "validate_board_internal (task_board t) [] 128 = Some (ok, reason)" by blast
    from step w pa Processing v have e: "e = Printed w (task_id t) ok reason"
      and s': "s' = s\<lparr>workers := (workers s)[w := Idle_Waiting]\<rparr>"
      by (auto simp: worker_loop_def)
    have "inv_at (main s) (es @ [e])
        (s\<lparr>queue := queue s, workers := (workers s)[w := Idle_Waiting]\<rparr>)"
    proof (rule inv_at_worker_update [OF inv al w])
      show "workers s ! w \<noteq> Terminated" by (simp add: Processing)
      show "\<not> is_main e" by (simp add: e)
      show "dequeued_by w' (es @ [e]) = dequeued_by w' es" for w'
        by (simp add: e)
      show "worker_hist (dequeued_by w (es @ [e])) Idle_Waiting"
        using hist Processing by (simp add: e worker_hist_def)
      show "\<exists>as' xs'. queue_rel (queue s) as' xs' \<and>
          live ((workers s)[w := Idle_Waiting]) + count_list xs None
            = live (workers s) + count_list xs' None \<and>
          1 + 2 * length xs' + busy ((workers s)[w := Idle_Waiting])
            \<le> 2 * length xs + busy (workers s)"
        if "queue_rel (queue s) as xs" for as xs
        using that live_update [OF w, of Idle_Waiting] busy_update [OF w, of Idle_Waiting]
          Processing
        by (intro exI [of _ as] exI [of _ xs]) auto
    qed
    then show ?thesis by (simp add: s')
  next
    case Terminated
    with step w pa show ?thesis by (simp add: worker_loop_def)
  qed
qed

lemma sys_step_inv:
  "inv_at (main s) es s \<Longrightarrow> sys_step s c = Some (e, s') \<Longrightarrow> inv_at (main s') (es @ [e]) s'"
  by (cases c) (auto intro: main_step_inv worker_loop_inv)

lemma sys_run_inv:
  "inv_at (main s) es0 s \<Longrightarrow> sys_run s cs = (es, s') \<Longrightarrow> inv_at (main s') (es0 @ es) s'"
proof (induction cs arbitrary: s es0 es s')
  case Nil
  then show ?case by simp
next
  case (Cons c cs)
  show ?case
  proof (cases "sys_step s c")
    case None
    with Cons show ?thesis by simp
  next
    case (Some p)
    obtain e s1 where p: "p = (e, s1)" by (cases p)
    obtain es1 s2 where r: "sys_run s1 cs = (es1, s2)" by (cases "sys_run s1 cs")
    with Cons.prems(2) Some p have es: "es = e # es1" and s': "s' = s2" by auto
    from sys_step_inv [OF Cons.prems(1) Some [unfolded p]]
    have "inv_at (main s1) (es0 @ [e]) s1" .
    from Cons.IH [OF this r] show ?thesis by (simp add: es s')
  qed
qed

lemma start_run_inv:
  "sys_run (start n count q0) cs = (es, s) \<Longrightarrow> inv_at (main s) es s"
  using sys_run_inv [of "start n count q0" "[]" cs es s] inv_at_start [of n count q0]
  by (simp add: start_def)

lemma sys_step_config:
  "sys_step s c = Some (e, s') \<Longrightarrow>
     worker_count s' = worker_count s \<and> board_count s' = board_count s"
  by (cases c)
    (auto simp: main_step_def submit_step_def sentinel_step_def join_step_def main_enqueue_def
      worker_loop_def Let_def
      split: main_state.splits if_splits option.splits res.splits worker_state.splits
        prod.splits)

lemma enqueue_task_finite:
  "enqueue_task q t m = Returns q' \<Longrightarrow> finite (dom (nodes q)) \<Longrightarrow> finite (dom (nodes q'))"
  by (auto simp: enqueue_task_def Let_def split: option.splits)

lemma dequeue_task_finite:
  "dequeue_task q = Returns (x, q') \<Longrightarrow> finite (dom (nodes q)) \<Longrightarrow> finite (dom (nodes q'))"
  by (auto simp: dequeue_task_def Let_def split: option.splits if_splits)

lemma main_enqueue_finite:
  "main_enqueue s t m pc = Some (e, s') \<Longrightarrow> finite (dom (nodes (queue s))) \<Longrightarrow>
     finite (dom (nodes (queue s')))"
  by (auto simp: main_enqueue_def split: if_splits res.splits dest: enqueue_task_finite)

lemma join_step_queue: "join_step f w s = Some (e, s') \<Longrightarrow> queue s' = queue s"
  by (auto simp: join_step_def Let_def split: if_splits worker_state.splits)

lemma sentinel_step_finite:
  "sentinel_step f w s m = Some (e, s') \<Longrightarrow> finite (dom (nodes (queue s))) \<Longrightarrow>
     finite (dom (nodes (queue s')))"
  by (auto simp: sentinel_step_def split: if_splits
      dest: main_enqueue_finite join_step_queue)

lemma submit_step_finite:
  "submit_step i s rd tm m = Some (e, s') \<Longrightarrow> finite (dom (nodes (queue s))) \<Longrightarrow>
     finite (dom (nodes (queue s')))"
  by (auto simp: submit_step_def split: if_splits option.splits
      dest: main_enqueue_finite sentinel_step_finite)

lemma worker_loop_finite:
  "worker_loop s w = Some (e, s') \<Longrightarrow> finite (dom (nodes (queue s))) \<Longrightarrow>
     finite (dom (nodes (queue s')))"
  by (auto simp: worker_loop_def
      split: if_splits worker_state.splits res.splits option.splits prod.splits
      dest: dequeue_task_finite)

lemma sys_step_finite:
  "sys_step s c = Some (e, s') \<Longrightarrow> finite (dom (nodes (queue s))) \<Longrightarrow>
     finite (dom (nodes (queue s')))"
  by (cases c)
    (auto simp: main_step_def split: main_state.splits
      dest: submit_step_finite sentinel_step_finite join_step_queue worker_loop_finite)

lemma sys_run_finite:
  "sys_run s cs = (es, s') \<Longrightarrow> finite (dom (nodes (queue s))) \<Longrightarrow>
     finite (dom (nodes (queue s')))"
proof (induction cs arbitrary: s es s')
  case Nil
  then show ?case by simp
next
  case (Cons c cs)
  show ?case
  proof (cases "sys_step s c")
    case None
    with Cons show ?thesis by simp
  next
    case (Some p)
    obtain e s1 where p: "p = (e, s1)" by (cases p)
    obtain es1 s2 where r: "sys_run s1 cs = (es1, s2)" by (cases "sys_run s1 cs")
    with Cons.prems(1) Some p have s': "s' = s2" by auto
    from sys_step_finite [OF Some [unfolded p] Cons.prems(2)]
    have "finite (dom (nodes (queue s1)))" .
    from Cons.IH [OF r this] show ?thesis by (simp add: s')
  qed
qed

lemma sys_run_config:
  "sys_run s cs = (es, s') \<Longrightarrow>
     worker_count s' = worker_count s \<and> board_count s' = board_count s"
proof (induction cs arbitrary: s es s')
  case Nil
  then show ?case by simp
next
  case (Cons c cs)
  show ?case
  proof (cases "sys_step s c")
    case None
    with Cons show ?thesis by simp
  next
    case (Some p)
    obtain e s1 where p: "p = (e, s1)" by (cases p)
    obtain es1 s2 where r: "sys_run s1 cs = (es1, s2)" by (cases "sys_run s1 cs")
    with Cons.prems(1) Some p have s': "s' = s2" by auto
    from sys_step_config [OF Some [unfolded p]] Cons.IH [OF r] show ?thesis
      by (simp add: s')
  qed
qed

lemma enqueue_progress:
  assumes "queue_rel (queue s) as xs" "finite (dom (nodes (queue s)))"
  shows "\<exists>a s'. main_enqueue s t (Some a) pc = Some (Enqueued (map_option task_id t), s')"
proof -
  from assms(2) obtain a where "a \<notin> dom (nodes (queue s))"
    using ex_new_if_finite [of "dom (nodes (queue s))"] by auto
  then have fresh: "nodes (queue s) a = None" by auto
  from enqueue_task_rel [OF assms(1) fresh, of t] obtain q' where
    "enqueue_task (queue s) t (Some a) = Returns q'" by blast
  with fresh have "main_enqueue s t (Some a) pc
      = Some (Enqueued (map_option task_id t), s\<lparr>queue := q', main := pc\<rparr>)"
    by (simp add: main_enqueue_def malloc_returns_def)
  then show ?thesis by blast
qed

lemma good_simps [simp]:
  "good (Enqueued x)" "good (Joined w)" "good (Main_returned rc)" "good (Dequeued w x)"
  "good (Printed w k ok reason)" "good (Read_failed i)" "\<not> good Malloc_failed" "\<not> good Crash"
  by (simp_all add: good_def)

lemma join_progress:
  assumes inv: "inv_at (Joining f w) es s" and pa: "process_alive s"
  shows "(\<exists>e s'. join_step f w s = Some (e, s') \<and> good e) \<or>
     (\<exists>e s'. worker_loop s w = Some (e, s') \<and> good e)"
proof (cases "w < worker_count s")
  case False
  then show ?thesis by (simp add: join_step_def Let_def good_def)
next
  case True
  from inv have len: "length (workers s) = worker_count s" by (simp add: inv_at_def)
  show ?thesis
  proof (cases "workers s ! w")
    case Terminated
    with True show ?thesis by (simp add: join_step_def good_def)
  next
    case (Processing t)
    from validate_returns [of "task_board t" "[]" 128] obtain ok reason where
      "validate_board_internal (task_board t) [] 128 = Some (ok, reason)" by blast
    with True len pa Processing show ?thesis
      by (simp add: worker_loop_def good_def)
  next
    case Idle_Waiting
    from inv obtain as xs where q: "queue_rel (queue s) as xs"
      and b: "balance (Joining f w) s xs"
      by (auto simp: inv_at_def)
    from True len Idle_Waiting have "0 < live (workers s)"
      by (intro live_pos [of w]) simp_all
    with b have "0 < count_list xs None" by (simp add: balance_def)
    then obtain x xs' where xs: "xs = x # xs'" by (cases xs) auto
    with q obtain a as' where as: "as = a # as'" by (cases as) (auto simp: queue_rel_def)
    from dequeue_task_rel [OF q [unfolded as xs]] obtain q' where
      "dequeue_task (queue s) = Returns (x, q')" by blast
    with True len pa Idle_Waiting show ?thesis
      by (cases x) (simp_all add: worker_loop_def good_def)
  qed
qed

lemma sentinel_progress:
  assumes inv: "inv_at (Sentinels f w) es s" and pa: "process_alive s"
    and fin: "finite (dom (nodes (queue s)))"
  shows "(\<exists>m e s'. sentinel_step f w s m = Some (e, s') \<and> good e) \<or>
     (\<exists>e s'. worker_loop s 0 = Some (e, s') \<and> good e)"
proof (cases "w < worker_count s")
  case True
  from inv obtain as xs where q: "queue_rel (queue s) as xs" by (auto simp: inv_at_def)
  from enqueue_progress [OF q fin, of None "Sentinels f (w + 1)"] obtain a s' where
    "main_enqueue s None (Some a) (Sentinels f (w + 1)) = Some (Enqueued None, s')"
    by auto
  with True have "sentinel_step f w s (Some a) = Some (Enqueued None, s')"
    by (simp add: sentinel_step_def)
  moreover have "good (Enqueued None)" by simp
  ultimately show ?thesis by blast
next
  case False
  from inv have pi: "pc_inv (Sentinels f w) s"
    and tr: "main_events es = before_shutdown (board_count s) f
      @ replicate w (Enqueued None)"
    by (simp_all add: inv_at_def)
  with False have w: "w = worker_count s" by simp
  have "inv_at (Joining f 0) es s"
    by (rule inv_at_weaken [OF inv]) (simp_all add: w tr)
  from join_progress [OF this pa] False show ?thesis
    by (auto simp: sentinel_step_def)
qed

lemma submit_progress:
  assumes inv: "inv_at (Submitting i) es s" and pa: "process_alive s"
    and fin: "finite (dom (nodes (queue s)))"
  shows "(\<exists>rd tm m e s'. submit_step i s rd tm m = Some (e, s') \<and> good e) \<or>
     (\<exists>e s'. worker_loop s 0 = Some (e, s') \<and> good e)"
proof (cases "i \<le> board_count s")
  case True
  from inv obtain as xs where q: "queue_rel (queue s) as xs" by (auto simp: inv_at_def)
  from enqueue_progress [OF q fin,
      of "Some \<lparr>task_id = int i, task_board = solved\<rparr>" "Submitting (i + 1)"]
  obtain a s' where "main_enqueue s (Some \<lparr>task_id = int i, task_board = solved\<rparr>) (Some a)
      (Submitting (i + 1)) = Some (Enqueued (Some (int i)), s')"
    by auto
  with True have "submit_step i s (Some solved) True (Some a)
      = Some (Enqueued (Some (int i)), s')"
    by (simp add: submit_step_def)
  moreover have "good (Enqueued (Some (int i)))" by simp
  ultimately show ?thesis by blast
next
  case False
  from inv have pi: "pc_inv (Submitting i) s" and tr: "main_events es = submitted i"
    by (simp_all add: inv_at_def)
  with False have i: "i = board_count s + 1" by simp
  have "inv_at (Sentinels None 0) es s"
    by (rule inv_at_weaken [OF inv]) (simp_all add: i tr before_shutdown_def)
  from sentinel_progress [OF this pa fin] False show ?thesis
    by (auto simp: submit_step_def)
qed

lemma progress:
  assumes inv: "inv_at (main s) es s" and pa: "process_alive s"
    and fin: "finite (dom (nodes (queue s)))"
  shows "\<exists>c e s'. sys_step s c = Some (e, s') \<and> good e"
proof -
  have main: "\<exists>c e s'. sys_step s c = Some (e, s') \<and> good e"
    if "main_step s rd tm m = Some (e, s')" "good e" for rd tm m e s'
  proof -
    from that(1) have "sys_step s (Main rd tm m) = Some (e, s')" by simp
    with that(2) show ?thesis by blast
  qed
  have worker: "\<exists>c e s'. sys_step s c = Some (e, s') \<and> good e"
    if "worker_loop s w = Some (e, s')" "good e" for w e s'
  proof -
    from that(1) have "sys_step s (Worker w) = Some (e, s')" by simp
    with that(2) show ?thesis by blast
  qed
  show ?thesis
  proof (cases "main s")
    case (Submitting i)
    with submit_progress [OF inv [unfolded Submitting] pa fin] show ?thesis
      using main worker by (auto simp: main_step_def)
  next
    case (Sentinels f w)
    with sentinel_progress [OF inv [unfolded Sentinels] pa fin] show ?thesis
      using main worker by (auto simp: main_step_def)
  next
    case (Joining f w)
    with join_progress [OF inv [unfolded Joining] pa] show ?thesis
      using main [of None False None] worker by (auto simp: main_step_def)
  qed (use pa in \<open>simp_all add: process_alive_def\<close>)
qed

lemma count_list_filter: "P x \<Longrightarrow> count_list (filter P xs) x = count_list xs x"
  by (induction xs) auto

lemma count_list_replicate [simp]: "count_list (replicate n x) x = n"
  by (induction n) auto

lemma count_list_submitted [simp]: "count_list (submitted i) (Enqueued None) = 0"
  by (auto simp: submitted_def count_list_0_iff)

lemma count_list_before_shutdown [simp]:
  "count_list (before_shutdown count f) (Enqueued None) = 0"
  by (cases f) (simp_all add: before_shutdown_def)

lemma count_list_Joined [simp]: "count_list (map Joined ws) (Enqueued None) = 0"
  by (auto simp: count_list_0_iff)

lemma worker_hist_count:
  assumes "worker_hist d Terminated"
  shows "count_list d None = 1"
proof -
  from assms have d: "d \<noteq> []" "last d = None" "None \<notin> set (butlast d)"
    by (auto simp: worker_hist_def)
  then have "d = butlast d @ [None]" by (metis append_butlast_last_id)
  then have "count_list d None = count_list (butlast d) None + 1"
    by (metis count_list.simps count_list_append add.commute add.right_neutral)
  with d(3) show ?thesis by simp
qed

lemma in_main_events: "is_main e \<Longrightarrow> e \<in> set (main_events es) \<longleftrightarrow> e \<in> set es"
  by (simp add: main_events_def)

lemma set_submitted: "set (submitted i) \<subseteq> range (\<lambda>j. Enqueued (Some j))"
  by (auto simp: submitted_def)

lemma set_before_shutdown:
  "set (before_shutdown count f)
     \<subseteq> range (\<lambda>j. Enqueued (Some j)) \<union> (case f of None \<Rightarrow> {} | Some i \<Rightarrow> {Read_failed i})"
  using set_submitted by (cases f) (auto simp: before_shutdown_def)

lemma Read_failed_submitted [simp]: "Read_failed i \<notin> set (submitted j)"
  using set_submitted [of j] by auto

lemma Read_failed_before_shutdown [simp]:
  "Read_failed i \<in> set (before_shutdown count f) \<longleftrightarrow> f = Some i"
  by (cases f) (auto simp: before_shutdown_def)

lemma Malloc_failed_submitted [simp]: "Malloc_failed \<notin> set (submitted j)"
  using set_submitted [of j] by auto

lemma Malloc_failed_before_shutdown [simp]: "Malloc_failed \<notin> set (before_shutdown count f)"
  by (cases f) (auto simp: before_shutdown_def)

lemma Joined_submitted [simp]: "Joined w \<notin> set (submitted j)"
  using set_submitted [of j] by auto

lemma Joined_before_shutdown [simp]: "Joined w \<notin> set (before_shutdown count f)"
  by (cases f) (auto simp: before_shutdown_def)

lemma Main_returned_submitted [simp]: "Main_returned rc \<notin> set (submitted j)"
  using set_submitted [of j] by auto

lemma Main_returned_before_shutdown [simp]:
  "Main_returned rc \<notin> set (before_shutdown count f)"
  by (cases f) (auto simp: before_shutdown_def)

lemma read_failure_trace:
  assumes tr: "main_trace n count pc tr" and rf: "Read_failed i \<in> set tr"
  shows "\<exists>rest. tr = submitted i @ Read_failed i # rest \<and> set rest \<subseteq> after_failure"
proof (cases pc)
  case (Submitting j)
  with tr rf show ?thesis by simp
next
  case (Sentinels f w)
  with tr rf have "f = Some i" by auto
  with tr Sentinels show ?thesis by (auto simp: before_shutdown_def after_failure_def)
next
  case (Joining f w)
  with tr rf have "f = Some i" by auto
  with tr Joining show ?thesis by (auto simp: before_shutdown_def after_failure_def)
next
  case (Returned rc)
  with tr obtain f where f: "rc = (case f of None \<Rightarrow> 0 | Some i \<Rightarrow> 1)"
    "tr = before_shutdown count f @ replicate n (Enqueued None) @ map Joined [0..<n]
                 @ [Main_returned rc]" by auto
  with rf have "f = Some i" by auto
  with f show ?thesis by (auto simp: before_shutdown_def after_failure_def)
next
  case (Exited c)
  with tr rf obtain f w where "tr = before_shutdown count f @ replicate w (Enqueued None)
      @ [Malloc_failed]" "f = Some i"
    by auto
  then show ?thesis by (auto simp: before_shutdown_def after_failure_def)
next
  case Crashed
  with tr show ?thesis by simp
qed

lemma read_failure_returned:
  assumes tr: "main_trace n count (Returned rc) tr" and rf: "Read_failed i \<in> set tr"
  shows "rc = 1 \<and> tr = submitted i @ [Read_failed i] @ replicate n (Enqueued None)
      @ map Joined [0..<n] @ [Main_returned 1]"
proof -
  from tr obtain f where f: "rc = (case f of None \<Rightarrow> 0 | Some i \<Rightarrow> 1)"
    "tr = before_shutdown count f @ replicate n (Enqueued None) @ map Joined [0..<n]
                 @ [Main_returned rc]" by auto
  with rf have "f = Some i" by auto
  with f show ?thesis by (simp add: before_shutdown_def)
qed

lemma malloc_failure_trace:
  assumes tr: "main_trace n count pc tr" and mf: "Malloc_failed \<in> set tr"
  shows "\<exists>c. pc = Exited c"
  using assms by (cases pc) auto

lemma exited_trace:
  assumes tr: "main_trace n count (Exited c) tr"
  shows "tr \<noteq> [] \<and> last tr = Malloc_failed \<and> (\<forall>w. Joined w \<notin> set tr) \<and>
     (\<forall>rc. Main_returned rc \<notin> set tr) \<and> (0 < n \<longrightarrow> count_list tr (Enqueued None) < n)"
  using assms by auto

text \<open>
  The process ends: from a state of an execution there is a schedule, without a failure of
  \<^verbatim>\<open>malloc\<close>, at whose end \<^verbatim>\<open>main\<close> has returned or the process has exited. An ended
  process has no step.
\<close>

lemma ended_no_step: "\<not> process_alive s \<Longrightarrow> sys_step s c = None"
  by (cases c)
    (auto simp: process_alive_def main_step_def worker_loop_def split: main_state.splits)

lemma completion:
  assumes "inv_at (main s) es s" and "finite (dom (nodes (queue s)))"
  shows "\<exists>cs' es' s'. sys_run s cs' = (es', s') \<and> (\<forall>e\<in>set es'. good e) \<and> \<not> process_alive s'"
  using assms
proof (induction "bound s - length es" arbitrary: s es rule: less_induct)
  case less
  show ?case
  proof (cases "process_alive s")
    case False
    then have "sys_run s [] = ([], s) \<and> (\<forall>e\<in>set []. good e) \<and> \<not> process_alive s" by simp
    then show ?thesis by blast
  next
    case True
    from progress [OF less.prems(1) True less.prems(2)]
    obtain c e s1 where st: "sys_step s c = Some (e, s1)" and g: "good e" by blast
    from sys_step_inv [OF less.prems(1) st] have inv1: "inv_at (main s1) (es @ [e]) s1" .
    from sys_step_finite [OF st less.prems(2)] have fin1: "finite (dom (nodes (queue s1)))" .
    from sys_step_config [OF st] have b: "bound s1 = bound s" by (simp add: bound_def)
    from inv1 have "length (es @ [e]) \<le> bound s1" by (auto simp: inv_at_def)
    with b have "bound s1 - length (es @ [e]) < bound s - length es" by simp
    from less.hyps [OF this inv1 fin1]
    obtain cs1 es1 s' where r: "sys_run s1 cs1 = (es1, s')" and g1: "\<forall>e\<in>set es1. good e"
      and e: "\<not> process_alive s'" by blast
    from st r have "sys_run s (c # cs1) = (e # es1, s')" by simp
    moreover from g g1 have "\<forall>x\<in>set (e # es1). good x" by simp
    ultimately show ?thesis using e by blast
  qed
qed

lemma ended_after_read_failure:
  assumes inv: "inv_at (main s) es s" and e: "\<not> process_alive s"
    and rf: "Read_failed i \<in> set es" and mf: "Malloc_failed \<notin> set es"
  shows "main s = Returned 1 \<and>
     main_events es = submitted i @ [Read_failed i] @ replicate (worker_count s) (Enqueued None)
       @ map Joined [0..<worker_count s] @ [Main_returned 1] \<and>
     (\<forall>w<worker_count s. workers s ! w = Terminated)"
proof -
  from inv have pi: "pc_inv (main s) s"
    and tr: "main_trace (worker_count s) (board_count s) (main s) (main_events es)"
    by (auto simp: inv_at_def)
  from e pi obtain rc where "main s = Returned rc \<or> (\<exists>c. main s = Exited c)"
    by (cases "main s") (auto simp: process_alive_def)
  moreover have "main s \<noteq> Exited c" for c
  proof
    assume x: "main s = Exited c"
    with tr have "main_trace (worker_count s) (board_count s) (Exited c) (main_events es)"
      by simp
    from exited_trace [OF this] have "main_events es \<noteq> []" "last (main_events es) = Malloc_failed"
      by blast+
    then have "Malloc_failed \<in> set (main_events es)" using last_in_set by metis
    with mf in_main_events [of Malloc_failed es] show False by (simp add: is_main_def)
  qed
  ultimately have r: "main s = Returned rc" by blast
  with tr have tr': "main_trace (worker_count s) (board_count s) (Returned rc) (main_events es)"
    by simp
  from rf in_main_events [of "Read_failed i" es] have "Read_failed i \<in> set (main_events es)"
    by (simp add: is_main_def)
  from read_failure_returned [OF tr' this] r pi show ?thesis by simp
qed

section \<open>The claims about the pool\<close>

text \<open>
  Claim C7. In every execution of the pool with \<open>n\<close> workers: no thread runs into undefined
  behaviour; a sentinel is the last entry a worker dequeues, and a worker has left its loop
  exactly when it has dequeued one, so that no worker dequeues two sentinels or anything
  after its first. When \<^verbatim>\<open>main\<close> has returned, it has enqueued exactly \<open>n\<close> sentinels, all
  after the tasks, and then joined the workers \<open>0, \<dots>, n - 1\<close>; every worker has left its
  loop and has dequeued exactly one sentinel. The shutdown is reached: an execution has at
  most \<open>3 * count + 4 * n + 2\<close> steps, and as long as the process has not ended some thread
  has a step that is neither a failure of \<^verbatim>\<open>malloc\<close> nor undefined behaviour.
\<close>

theorem shutdown_terminates_every_worker:
  assumes run: "sys_run (start n count q0) cs = (es, s)"
  shows "main s \<noteq> Crashed \<and>
    (\<forall>w<n. None \<notin> set (butlast (dequeued_by w es)) \<and>
       (workers s ! w = Terminated)
         = (dequeued_by w es \<noteq> [] \<and> last (dequeued_by w es) = None)) \<and>
    (\<forall>rc. main s = Returned rc \<longrightarrow>
       (\<exists>f. main_events es
          = before_shutdown count f @ replicate n (Enqueued None) @ map Joined [0..<n]
              @ [Main_returned rc]) \<and>
       count_list es (Enqueued None) = n \<and>
       (\<forall>w<n. workers s ! w = Terminated \<and> count_list (dequeued_by w es) None = 1)) \<and>
    length es \<le> 3 * count + 4 * n + 2 \<and>
    (finite (dom (nodes q0)) \<and> process_alive s \<longrightarrow>
       (\<exists>c e s'. sys_step s c = Some (e, s') \<and> e \<noteq> Malloc_failed \<and> e \<noteq> Crash))"
proof -
  from sys_run_config [OF run] have cfg: "worker_count s = n" "board_count s = count"
    by (simp_all add: start_def)
  from start_run_inv [OF run] have inv: "inv_at (main s) es s" .
  then have pi: "pc_inv (main s) s"
    and tr: "main_trace n count (main s) (main_events es)"
    and hist: "\<forall>w<n. worker_hist (dequeued_by w es) (workers s ! w)"
    and len: "length es \<le> bound s"
    by (auto simp: inv_at_def cfg)
  have 1: "main s \<noteq> Crashed" using pi by auto
  have 2: "\<forall>w<n. None \<notin> set (butlast (dequeued_by w es)) \<and>
       (workers s ! w = Terminated)
         = (dequeued_by w es \<noteq> [] \<and> last (dequeued_by w es) = None)"
    using hist by (simp add: worker_hist_def)
  have 3: "(\<exists>f. main_events es
          = before_shutdown count f @ replicate n (Enqueued None) @ map Joined [0..<n]
              @ [Main_returned rc]) \<and>
       count_list es (Enqueued None) = n \<and>
       (\<forall>w<n. workers s ! w = Terminated \<and> count_list (dequeued_by w es) None = 1)"
    if r: "main s = Returned rc" for rc
  proof -
    from tr r obtain f where f: "main_events es
          = before_shutdown count f @ replicate n (Enqueued None) @ map Joined [0..<n]
              @ [Main_returned rc]" by auto
    have "count_list es (Enqueued None) = count_list (main_events es) (Enqueued None)"
      by (simp add: main_events_def count_list_filter)
    also have "\<dots> = n" by (simp add: f)
    finally have c: "count_list es (Enqueued None) = n" .
    from pi r have t: "\<forall>w<n. workers s ! w = Terminated" by (simp add: cfg)
    have "\<forall>w<n. count_list (dequeued_by w es) None = 1"
    proof (intro allI impI)
      fix w assume "w < n"
      with hist t have "worker_hist (dequeued_by w es) Terminated" by auto
      then show "count_list (dequeued_by w es) None = 1" by (rule worker_hist_count)
    qed
    with f c t show ?thesis by blast
  qed
  have 4: "length es \<le> 3 * count + 4 * n + 2" using len by (simp add: bound_def cfg)
  have 5: "\<exists>c e s'. sys_step s c = Some (e, s') \<and> e \<noteq> Malloc_failed \<and> e \<noteq> Crash"
    if "finite (dom (nodes q0)) \<and> process_alive s"
  proof -
    from that have "finite (dom (nodes (queue (start n count q0))))"
      by (simp add: start_def queue_init_def)
    from sys_run_finite [OF run this] have "finite (dom (nodes (queue s)))" .
    from progress [OF inv _ this] that show ?thesis by (simp add: good_def)
  qed
  from 1 2 3 4 5 show ?thesis by blast
qed

theorem shutdown_terminates_every_worker_witness:
  "finite (dom (nodes no_nodes)) \<and>
   main (snd (sys_run (start 2 1 no_nodes) normal_run)) = Returned 0 \<and>
   fst (sys_run (start 2 1 no_nodes) normal_run)
     = [Enqueued (Some 1), Dequeued 0 (Some 1), Printed 0 1 True ''OK'', Enqueued None,
        Enqueued None, Dequeued 1 None, Dequeued 0 None, Joined 0, Joined 1, Main_returned 0] \<and>
   count_list (fst (sys_run (start 2 1 no_nodes) normal_run)) (Enqueued None) = 2 \<and>
   workers (snd (sys_run (start 2 1 no_nodes) normal_run)) ! 0 = Terminated \<and>
   workers (snd (sys_run (start 2 1 no_nodes) normal_run)) ! 1 = Terminated \<and>
   process_alive (snd (sys_run (start 2 1 no_nodes) [Worker 0])) \<and>
   (\<exists>c e s'. sys_step (snd (sys_run (start 2 1 no_nodes) [Worker 0])) c = Some (e, s') \<and>
      e \<noteq> Malloc_failed \<and> e \<noteq> Crash)"
proof -
  define es where "es = fst (sys_run (start 2 1 no_nodes) normal_run)"
  define s where "s = snd (sys_run (start 2 1 no_nodes) normal_run)"
  define s0 where "s0 = snd (sys_run (start 2 1 no_nodes) [Worker 0])"
  have run: "sys_run (start 2 1 no_nodes) normal_run = (es, s)"
    by (simp add: es_def s_def)
  have run0: "sys_run (start 2 1 no_nodes) [Worker 0]
      = (fst (sys_run (start 2 1 no_nodes) [Worker 0]), s0)"
    by (simp add: s0_def)
  have f: "finite (dom (nodes no_nodes))" by (simp add: no_nodes_def)
  have m: "main s = Returned 0" unfolding s_def by code_simp
  have e: "es = [Enqueued (Some 1), Dequeued 0 (Some 1), Printed 0 1 True ''OK'',
      Enqueued None, Enqueued None, Dequeued 1 None, Dequeued 0 None, Joined 0, Joined 1,
      Main_returned 0]"
    unfolding es_def by code_simp
  have a: "process_alive s0" unfolding s0_def by code_simp
  from shutdown_terminates_every_worker [OF run] m
  have "count_list es (Enqueued None) = 2"
    and "\<forall>w<2. workers s ! w = Terminated \<and> count_list (dequeued_by w es) None = 1"
    by blast+
  then have t: "count_list es (Enqueued None) = 2" "workers s ! 0 = Terminated"
    "workers s ! 1 = Terminated"
    by simp_all
  from shutdown_terminates_every_worker [OF run0] f a
  have p: "\<exists>c e s'. sys_step s0 c = Some (e, s') \<and> e \<noteq> Malloc_failed \<and> e \<noteq> Crash"
    by blast
  from f m e t a p show ?thesis
    unfolding es_def s_def s0_def by (intro conjI)
qed

text \<open>
  Claim C8, as the code has it. When the read of a board fails during submission
  (\<^verbatim>\<open>read_board_from_stdin\<close> returns false in iteration \<open>i\<close> of the loop of line 269),
  \<^verbatim>\<open>main\<close> reads and submits nothing more: what it does afterwards is to enqueue sentinels,
  to join workers and to return 1, and when it has returned it has enqueued one sentinel per
  worker and joined every worker, each of which has left its loop. This does happen: an
  execution has at most \<open>3 * count + 4 * n + 2\<close> steps; after the failed read, as long as
  the process has not ended, some thread has a step that is neither a failure of \<^verbatim>\<open>malloc\<close>
  nor undefined behaviour; an execution without a failure of \<^verbatim>\<open>malloc\<close> in which no thread
  has a step any more has returned 1; and every execution without a failure of \<^verbatim>\<open>malloc\<close>
  can be continued, without one, to the return of 1 after the \<open>n\<close> sentinels and the \<open>n\<close>
  joins. When an allocation fails (of a task, or of a queue node, be it for a task or for a
  sentinel) the process ends at once in \<^verbatim>\<open>exit(1)\<close>: no worker has been joined, and fewer
  sentinels than workers have been enqueued.
\<close>

theorem fatal_error_during_submission:
  assumes run: "sys_run (start n count q0) cs = (es, s)"
  shows "(Read_failed i \<in> set es \<longrightarrow>
      (\<exists>rest. main_events es = submitted i @ Read_failed i # rest \<and>
         set rest \<subseteq> after_failure)) \<and>
    (Read_failed i \<in> set es \<and> main s = Returned rc \<longrightarrow>
      rc = 1 \<and>
      main_events es = submitted i @ [Read_failed i] @ replicate n (Enqueued None)
        @ map Joined [0..<n] @ [Main_returned 1] \<and>
      (\<forall>w<n. workers s ! w = Terminated)) \<and>
    length es \<le> 3 * count + 4 * n + 2 \<and>
    (finite (dom (nodes q0)) \<and> Read_failed i \<in> set es \<and> process_alive s \<longrightarrow>
      (\<exists>c e s'. sys_step s c = Some (e, s') \<and> e \<noteq> Malloc_failed \<and> e \<noteq> Crash)) \<and>
    (finite (dom (nodes q0)) \<and> Read_failed i \<in> set es \<and> Malloc_failed \<notin> set es \<and>
        (\<forall>c. sys_step s c = None) \<longrightarrow>
      main s = Returned 1) \<and>
    (finite (dom (nodes q0)) \<and> Read_failed i \<in> set es \<and> Malloc_failed \<notin> set es \<longrightarrow>
      (\<exists>cs' es' s'. sys_run s cs' = (es', s') \<and>
         Malloc_failed \<notin> set es' \<and> Crash \<notin> set es' \<and>
         main s' = Returned 1 \<and>
         main_events (es @ es') = submitted i @ [Read_failed i] @ replicate n (Enqueued None)
           @ map Joined [0..<n] @ [Main_returned 1] \<and>
         (\<forall>w<n. workers s' ! w = Terminated))) \<and>
    (Malloc_failed \<in> set es \<longrightarrow> main s = Exited 1) \<and>
    (main s = Exited c \<longrightarrow>
      c = 1 \<and> main_events es \<noteq> [] \<and> last (main_events es) = Malloc_failed \<and>
      (\<forall>w. Joined w \<notin> set es) \<and> (\<forall>rc. Main_returned rc \<notin> set es) \<and>
      (0 < n \<longrightarrow> count_list es (Enqueued None) < n))"
proof -
  from sys_run_config [OF run] have cfg: "worker_count s = n" "board_count s = count"
    by (simp_all add: start_def)
  from start_run_inv [OF run] have inv: "inv_at (main s) es s" .
  then have pi: "pc_inv (main s) s"
    and tr: "main_trace n count (main s) (main_events es)"
    and len: "length es \<le> bound s"
    by (auto simp: inv_at_def cfg)
  have fin: "finite (dom (nodes (queue s)))" if "finite (dom (nodes q0))"
  proof -
    from that have "finite (dom (nodes (queue (start n count q0))))"
      by (simp add: start_def queue_init_def)
    from sys_run_finite [OF run this] show ?thesis .
  qed
  have cnt: "count_list es (Enqueued None) = count_list (main_events es) (Enqueued None)"
    by (simp add: main_events_def count_list_filter)
  have 1: "\<exists>rest. main_events es = submitted i @ Read_failed i # rest \<and>
         set rest \<subseteq> after_failure" if "Read_failed i \<in> set es"
    using read_failure_trace [OF tr] that by (simp add: in_main_events)
  have 2: "rc = 1 \<and>
      main_events es = submitted i @ [Read_failed i] @ replicate n (Enqueued None)
        @ map Joined [0..<n] @ [Main_returned 1] \<and>
      (\<forall>w<n. workers s ! w = Terminated)"
    if "Read_failed i \<in> set es \<and> main s = Returned rc"
    using read_failure_returned [of n count rc "main_events es" i] tr pi that
    by (simp add: in_main_events cfg)
  have 3: "main s = Exited 1" if "Malloc_failed \<in> set es"
    using malloc_failure_trace [OF tr] that pi by (auto simp: in_main_events)
  have 4: "c = 1 \<and> main_events es \<noteq> [] \<and> last (main_events es) = Malloc_failed \<and>
      (\<forall>w. Joined w \<notin> set es) \<and> (\<forall>rc. Main_returned rc \<notin> set es) \<and>
      (0 < n \<longrightarrow> count_list es (Enqueued None) < n)" if ex: "main s = Exited c"
  proof -
    from tr ex have "main_trace n count (Exited c) (main_events es)" by simp
    from exited_trace [OF this] have et: "main_events es \<noteq> []"
      "last (main_events es) = Malloc_failed"
      "\<forall>w. Joined w \<notin> set (main_events es)"
      "\<forall>rc. Main_returned rc \<notin> set (main_events es)"
      "0 < n \<longrightarrow> count_list (main_events es) (Enqueued None) < n"
      by blast+
    have "Joined w \<notin> set es" for w
      using et(3) in_main_events [of "Joined w" es] by simp
    moreover have "Main_returned rc \<notin> set es" for rc
      using et(4) in_main_events [of "Main_returned rc" es] by simp
    moreover from pi ex have "c = 1" by simp
    ultimately show ?thesis using et(1,2,5) by (simp add: cnt)
  qed
  have 5: "length es \<le> 3 * count + 4 * n + 2" using len by (simp add: bound_def cfg)
  have 6: "\<exists>c e s'. sys_step s c = Some (e, s') \<and> e \<noteq> Malloc_failed \<and> e \<noteq> Crash"
    if "finite (dom (nodes q0)) \<and> Read_failed i \<in> set es \<and> process_alive s"
  proof -
    from that fin have "finite (dom (nodes (queue s)))" by simp
    from progress [OF inv _ this] that show ?thesis by (simp add: good_def)
  qed
  have 7: "main s = Returned 1"
    if h: "finite (dom (nodes q0)) \<and> Read_failed i \<in> set es \<and> Malloc_failed \<notin> set es \<and>
        (\<forall>c. sys_step s c = None)"
  proof -
    have "\<not> process_alive s"
    proof
      assume "process_alive s"
      from progress [OF inv this] h fin show False by auto
    qed
    from ended_after_read_failure [OF inv this, of i] h show ?thesis by simp
  qed
  have 8: "\<exists>cs' es' s'. sys_run s cs' = (es', s') \<and>
         Malloc_failed \<notin> set es' \<and> Crash \<notin> set es' \<and>
         main s' = Returned 1 \<and>
         main_events (es @ es') = submitted i @ [Read_failed i] @ replicate n (Enqueued None)
           @ map Joined [0..<n] @ [Main_returned 1] \<and>
         (\<forall>w<n. workers s' ! w = Terminated)"
    if h: "finite (dom (nodes q0)) \<and> Read_failed i \<in> set es \<and> Malloc_failed \<notin> set es"
  proof -
    from h fin have "finite (dom (nodes (queue s)))" by simp
    from completion [OF inv this]
    obtain cs' es' s' where r: "sys_run s cs' = (es', s')" and g: "\<forall>e\<in>set es'. good e"
      and e: "\<not> process_alive s'" by blast
    from g have ng: "Malloc_failed \<notin> set es'" "Crash \<notin> set es'" by (auto simp: good_def)
    from sys_run_inv [OF inv r] have inv': "inv_at (main s') (es @ es') s'" .
    from sys_run_config [OF r] have cfg': "worker_count s' = n" by (simp add: cfg)
    from h ng have "Read_failed i \<in> set (es @ es')" "Malloc_failed \<notin> set (es @ es')" by simp_all
    from ended_after_read_failure [OF inv' e this] r ng show ?thesis
      unfolding cfg' by blast
  qed
  from 1 2 3 4 5 6 7 8 show ?thesis by blast
qed


theorem fatal_error_during_submission_witness:
  "finite (dom (nodes no_nodes)) \<and>
   Read_failed 2 \<in> set (fst (sys_run (start 2 2 no_nodes) failed_read_run)) \<and>
   Malloc_failed \<notin> set (fst (sys_run (start 2 2 no_nodes) failed_read_run)) \<and>
   (\<forall>c. sys_step (snd (sys_run (start 2 2 no_nodes) failed_read_run)) c = None) \<and>
   main (snd (sys_run (start 2 2 no_nodes) failed_read_run)) = Returned 1 \<and>
   main_events (fst (sys_run (start 2 2 no_nodes) failed_read_run))
     = [Enqueued (Some 1), Read_failed 2, Enqueued None, Enqueued None, Joined 0, Joined 1,
        Main_returned 1] \<and>
   workers (snd (sys_run (start 2 2 no_nodes) failed_read_run)) ! 1 = Terminated \<and>
   fst (sys_run (start 2 2 no_nodes) (take 2 failed_read_run))
     = [Enqueued (Some 1), Read_failed 2] \<and>
   process_alive (snd (sys_run (start 2 2 no_nodes) (take 2 failed_read_run))) \<and>
   (\<exists>c e s'. sys_step (snd (sys_run (start 2 2 no_nodes) (take 2 failed_read_run))) c
        = Some (e, s') \<and> e \<noteq> Malloc_failed \<and> e \<noteq> Crash) \<and>
   (\<exists>cs' es' s'. sys_run (snd (sys_run (start 2 2 no_nodes) (take 2 failed_read_run))) cs'
        = (es', s') \<and>
      Malloc_failed \<notin> set es' \<and> Crash \<notin> set es' \<and> main s' = Returned 1 \<and>
      main_events ([Enqueued (Some 1), Read_failed 2] @ es')
        = [Enqueued (Some 1), Read_failed 2, Enqueued None, Enqueued None, Joined 0, Joined 1,
           Main_returned 1] \<and>
      workers s' ! 0 = Terminated \<and> workers s' ! 1 = Terminated) \<and>
   Malloc_failed \<in> set (fst (sys_run (start 2 2 no_nodes)
     [Main (Some solved) True (Some 5), Main (Some solved) True None])) \<and>
   main (snd (sys_run (start 2 2 no_nodes)
     [Main (Some solved) True (Some 5), Main (Some solved) True None])) = Exited 1"
proof -
  define es where "es = fst (sys_run (start 2 2 no_nodes) failed_read_run)"
  define s where "s = snd (sys_run (start 2 2 no_nodes) failed_read_run)"
  define es0 where "es0 = fst (sys_run (start 2 2 no_nodes) (take 2 failed_read_run))"
  define s0 where "s0 = snd (sys_run (start 2 2 no_nodes) (take 2 failed_read_run))"
  define cs where "cs = [Main (Some solved) True (Some 5), Main (Some solved) True None]"
  define es' where "es' = fst (sys_run (start 2 2 no_nodes) cs)"
  define s' where "s' = snd (sys_run (start 2 2 no_nodes) cs)"
  have run: "sys_run (start 2 2 no_nodes) failed_read_run = (es, s)"
    by (simp add: es_def s_def)
  have run0: "sys_run (start 2 2 no_nodes) (take 2 failed_read_run) = (es0, s0)"
    by (simp add: es0_def s0_def)
  have run': "sys_run (start 2 2 no_nodes) cs = (es', s')"
    by (simp add: es'_def s'_def)
  have fin: "finite (dom (nodes no_nodes))" by (simp add: no_nodes_def)
  have r: "Read_failed 2 \<in> set es" unfolding es_def by code_simp
  have nm: "Malloc_failed \<notin> set es" unfolding es_def by code_simp
  have "\<not> process_alive s" unfolding s_def by code_simp
  then have stuck: "\<forall>c. sys_step s c = None" by (simp add: ended_no_step)
  have e0: "es0 = [Enqueued (Some 1), Read_failed 2]" unfolding es0_def by code_simp
  have a0: "process_alive s0" unfolding s0_def by code_simp
  have f: "Malloc_failed \<in> set es'" unfolding es'_def cs_def by code_simp
  have x: "submitted 2 @ [Read_failed 2] @ replicate 2 (Enqueued None) @ map Joined [0..<2]
      @ [Main_returned 1]
      = [Enqueued (Some 1), Read_failed 2, Enqueued None, Enqueued None, Joined 0, Joined 1,
         Main_returned 1]"
    by code_simp
  from fatal_error_during_submission [OF run, of 2] fin r nm stuck
  have m: "main s = Returned 1" by blast
  from fatal_error_during_submission [OF run, of 2 1] r m
  have t1: "main_events es = submitted 2 @ [Read_failed 2] @ replicate 2 (Enqueued None)
      @ map Joined [0..<2] @ [Main_returned 1]"
    and t2: "\<forall>w<2. workers s ! w = Terminated"
    by blast+
  from t2 have "workers s ! 1 = Terminated" by simp
  with t1 have t: "main_events es = [Enqueued (Some 1), Read_failed 2, Enqueued None,
      Enqueued None, Joined 0, Joined 1, Main_returned 1]" "workers s ! 1 = Terminated"
    by (simp_all only: x)
  have r0: "Read_failed 2 \<in> set es0" "Malloc_failed \<notin> set es0" by (simp_all add: e0)
  from fatal_error_during_submission [OF run0, of 2] fin r0 a0
  have p: "\<exists>c e s'. sys_step s0 c = Some (e, s') \<and> e \<noteq> Malloc_failed \<and> e \<noteq> Crash"
    by blast
  from fatal_error_during_submission [OF run0, of 2] fin r0
  have "\<exists>cs' es' s'. sys_run s0 cs' = (es', s') \<and>
         Malloc_failed \<notin> set es' \<and> Crash \<notin> set es' \<and>
         main s' = Returned 1 \<and>
         main_events (es0 @ es') = submitted 2 @ [Read_failed 2] @ replicate 2 (Enqueued None)
           @ map Joined [0..<2] @ [Main_returned 1] \<and>
         (\<forall>w<2. workers s' ! w = Terminated)"
    by blast
  then obtain cs1 es1 s1 where c1: "sys_run s0 cs1 = (es1, s1)"
    "Malloc_failed \<notin> set es1" "Crash \<notin> set es1" "main s1 = Returned 1"
    and c2: "main_events (es0 @ es1) = submitted 2 @ [Read_failed 2]
      @ replicate 2 (Enqueued None) @ map Joined [0..<2] @ [Main_returned 1]"
    and c3: "\<forall>w<2. workers s1 ! w = Terminated"
    by blast
  from c3 have c4: "workers s1 ! 0 = Terminated" "workers s1 ! 1 = Terminated" by simp_all
  from c2 have c5: "main_events ([Enqueued (Some 1), Read_failed 2] @ es1)
      = [Enqueued (Some 1), Read_failed 2, Enqueued None, Enqueued None, Joined 0, Joined 1,
         Main_returned 1]"
    by (simp only: x e0)
  from c1 c4 c5
  have q: "\<exists>cs' es' s'. sys_run s0 cs' = (es', s') \<and>
      Malloc_failed \<notin> set es' \<and> Crash \<notin> set es' \<and> main s' = Returned 1 \<and>
      main_events ([Enqueued (Some 1), Read_failed 2] @ es')
        = [Enqueued (Some 1), Read_failed 2, Enqueued None, Enqueued None, Joined 0, Joined 1,
           Main_returned 1] \<and>
      workers s' ! 0 = Terminated \<and> workers s' ! 1 = Terminated"
    by blast
  from fatal_error_during_submission [OF run'] f have e: "main s' = Exited 1" by blast
  from fin r nm stuck m t e0 a0 p q f e show ?thesis
    unfolding es_def s_def es0_def s0_def es'_def s'_def cs_def by (intro conjI)
qed

text \<open>
  Two workers, one board to submit. The \<^verbatim>\<open>malloc\<close> of the task fails, or the \<^verbatim>\<open>malloc\<close> of
  its queue node: the process has exited with status 1, and the failure is all that has
  happened. No sentinel has been enqueued and no worker joined, whichever threads are
  scheduled afterwards.
\<close>

theorem alloc_failure_counterexample:
  "fst (sys_run (start 2 1 no_nodes)
      [Main (Some solved) False None, Worker 0, Worker 1, Main None True (Some 5)])
     = [Malloc_failed] \<and>
   main (snd (sys_run (start 2 1 no_nodes)
      [Main (Some solved) False None, Worker 0, Worker 1, Main None True (Some 5)]))
     = Exited 1 \<and>
   fst (sys_run (start 2 1 no_nodes)
      [Main (Some solved) True None, Worker 0, Worker 1, Main None True (Some 5)])
     = [Malloc_failed] \<and>
   main (snd (sys_run (start 2 1 no_nodes)
      [Main (Some solved) True None, Worker 0, Worker 1, Main None True (Some 5)]))
     = Exited 1"
  by code_simp

end
